theory Spec2Isabelle
  imports Complex_Main "HOL-Library.Multiset"
begin

section \<open>Values shared by the whole program\<close>

text \<open>
  JavaScript numbers are IEEE doubles. The development idealises them: a finite number
  is a \<^typ>\<open>real\<close> and arithmetic on it is exact, so rounding, overflow and NaN are
  outside the model. The only non-finite value the program itself produces is
  \<^verbatim>\<open>Infinity\<close> (the initial tentative distance and the initial best value of the
  linear scans); it is the second constructor of \<open>number\<close>. A comparison
  \<^verbatim>\<open>x < y\<close> of two such numbers is \<open>less_number\<close>.
\<close>

datatype number = Fin real | Infinity

fun less_number :: "number \<Rightarrow> number \<Rightarrow> bool" where
  "less_number (Fin a) (Fin b) = (a < b)"
| "less_number (Fin a) Infinity = True"
| "less_number Infinity b = False"

text \<open>
  A call either returns a value or throws. \<open>TypeError\<close> is what the engine raises on a
  property read of \<^verbatim>\<open>undefined\<close>; \<open>AreaTooLarge\<close> is the
  \<^verbatim>\<open>Error('Selected map area is too large ...')\<close> of \<^verbatim>\<open>fetchRoadGraph\<close>,
  \<open>OverpassError s\<close> its \<^verbatim>\<open>Error(`Overpass API error: ${resp.status}`)\<close>, and
  \<open>Rejected\<close> a rejection of the awaited \<^verbatim>\<open>fetch\<close> or \<^verbatim>\<open>resp.json()\<close>
  that propagates to the caller.
\<close>

datatype error = TypeError | AreaTooLarge | OverpassError nat | Rejected

text \<open>
  Objects with \<^verbatim>\<open>lat\<close> and \<^verbatim>\<open>lng\<close>; a graph node carries an \<^verbatim>\<open>id\<close> as well
  (\<open>id_n\<close>, since \<open>id\<close> is the identity function of HOL).
\<close>

record latlng =
  lat :: real
  lng :: real

record node = latlng +
  id_n :: string

section \<open>Great-circle distance (haversine, the same text in app.js, graph.js and osm.js)\<close>

definition toRad :: "real \<Rightarrow> real" where
  "toRad deg = deg * pi / 180"

definition haversine :: "'a latlng_scheme \<Rightarrow> 'b latlng_scheme \<Rightarrow> real" where
  "haversine a b =
    (let R = 6371000;
         dLat = toRad (lat b - lat a);
         dLng = toRad (lng b - lng a);
         lat1 = toRad (lat a);
         lat2 = toRad (lat b);
         sinDLat = sin (dLat / 2);
         sinDLng = sin (dLng / 2);
         h = sinDLat * sinDLat + cos lat1 * cos lat2 * sinDLng * sinDLng
     in 2 * R * arcsin (min 1 (sqrt h)))"

lemma sin_half_toRad_swap:
  "sin (toRad (x - y) / 2) * sin (toRad (x - y) / 2) =
   sin (toRad (y - x) / 2) * sin (toRad (y - x) / 2)"
proof -
  have "toRad (x - y) / 2 = - (toRad (y - x) / 2)"
    by (simp add: toRad_def field_simps)
  then show ?thesis
    by (simp only: sin_minus minus_mult_minus)
qed

lemma haversine_commute: "haversine a b = haversine b a"
  unfolding haversine_def Let_def
  using sin_half_toRad_swap [of "lat b" "lat a"] sin_half_toRad_swap [of "lng b" "lng a"]
  by (simp add: mult.assoc mult.commute mult.left_commute)

lemma haversine_self: "haversine a a = 0"
  unfolding haversine_def Let_def toRad_def by simp

text \<open>
  C9. For all coordinates \<open>a\<close> and \<open>b\<close> with latitude in [-90, 90] and longitude in
  [-180, 180], the great-circle distance is symmetric, \<open>haversine a b = haversine b a\<close>,
  and the distance of a coordinate to itself is 0. (Over the reals; inside the stated
  ranges the argument of the square root is non-negative, as it is in the program.)
\<close>

theorem haversine_symmetric_zero:
  assumes "- 90 \<le> lat a" "lat a \<le> 90" "- 180 \<le> lng a" "lng a \<le> 180"
    and "- 90 \<le> lat b" "lat b \<le> 90" "- 180 \<le> lng b" "lng b \<le> 180"
  shows "haversine a b = haversine b a \<and> haversine a a = 0"
  by (simp add: haversine_commute [of a b] haversine_self)

theorem haversine_symmetric_zero_witness:
  "haversine \<lparr>lat = 30, lng = 76\<rparr> \<lparr>lat = - 45, lng = 120\<rparr>
     = haversine \<lparr>lat = - 45, lng = 120\<rparr> \<lparr>lat = 30, lng = 76\<rparr>
   \<and> haversine \<lparr>lat = 30, lng = 76\<rparr> \<lparr>lat = 30, lng = 76\<rparr> = 0"
  using haversine_symmetric_zero [of "\<lparr>lat = 30, lng = 76\<rparr>" "\<lparr>lat = - 45, lng = 120\<rparr>"]
  by simp

section \<open>Nearest node (app.js, nearestNodeId)\<close>

text \<open>
  The \<^verbatim>\<open>for ... of\<close> loop is a left fold over the node array; its state is the pair
  \<^verbatim>\<open>(bestId, best)\<close>, initially \<^verbatim>\<open>(null, Infinity)\<close>. The identifier \<^verbatim>\<open>null\<close>
  is \<open>None\<close>. The function has no \<^verbatim>\<open>throw\<close>: it always returns.
\<close>

definition nearest_step ::
  "'a latlng_scheme \<Rightarrow> string option \<times> number \<Rightarrow> node \<Rightarrow> string option \<times> number" where
  "nearest_step latlng acc n =
     (let d = haversine latlng \<lparr>lat = lat n, lng = lng n\<rparr>
      in if less_number (Fin d) (snd acc) then (Some (id_n n), Fin d) else acc)"

definition nearestNodeId :: "'a latlng_scheme \<Rightarrow> node list \<Rightarrow> error + string option" where
  "nearestNodeId latlng nodes = Inr (fst (foldl (nearest_step latlng) (None, Infinity) nodes))"





text \<open>
  C3, as the specification states it: the nearest-node query on a model with zero nodes
  fails with an EmptyGraph error. The program does not: on the empty node list the scan
  body never runs and the initial \<^verbatim>\<open>bestId = null\<close> is returned.
\<close>

theorem nearestNodeId_empty_counterexample:
  "nearestNodeId \<lparr>lat = 30, lng = 76\<rparr> [] = Inr None"
  by (simp add: nearestNodeId_def)

text \<open>
  C3, amended: for every coordinate point, the nearest-node query on an empty node list
  returns normally, and the value it returns is the identifier \<^verbatim>\<open>null\<close>.
\<close>

theorem nearestNodeId_empty: "nearestNodeId p [] = Inr None"
  by (simp add: nearestNodeId_def)




section \<open>Graphs as the two builders return them\<close>

text \<open>
  An adjacency entry is \<^verbatim>\<open>{ to, weight, unpaved, surface }\<close>; an edge has a
  \<^verbatim>\<open>from\<close> as well (\<open>from_n\<close> and \<open>to_n\<close>: \<open>from\<close> is a keyword of the proof
  language). The \<^verbatim>\<open>surface\<close> field is a string (the lower-cased tag, or
  \<^verbatim>\<open>'paved'\<close>/\<^verbatim>\<open>'unpaved'\<close>); the Paved/Unpaved classification of the
  specification is the boolean \<^verbatim>\<open>unpaved\<close>, the field the router reads.
\<close>

record adj_entry =
  to_n :: string
  weight :: real
  unpaved :: bool
  surface :: string

record edge = adj_entry +
  from_n :: string

text \<open>
  A \<^verbatim>\<open>Map\<close>, and an object used as a dictionary, is an association list in its
  iteration order: setting a key that is present replaces the value in place, a new key
  goes to the end. (For an object this is the order of \<^verbatim>\<open>Object.keys\<close> as long as
  keys that are array indices are inserted in ascending order, as both builders do.)
\<close>

fun map_set :: "('k \<times> 'v) list \<Rightarrow> 'k \<Rightarrow> 'v \<Rightarrow> ('k \<times> 'v) list" where
  "map_set [] k v = [(k, v)]"
| "map_set ((k', v') # m) k v = (if k' = k then (k, v) # m else (k', v') # map_set m k v)"

type_synonym adjacency = "(string \<times> adj_entry list) list"

record graph =
  nodes :: "node list"
  edges :: "edge list"
  adjacency :: adjacency

text \<open>
  The last three lines of both builders:
  \<^verbatim>\<open>for (const n of nodes) adjacency[n.id] = [];\<close>
  \<^verbatim>\<open>for (const e of edges) adjacency[e.from].push({ to: e.to, ... });\<close>
  A \<^verbatim>\<open>push\<close> on a key that was never set is a TypeError.
\<close>

definition adjacency_push :: "error + adjacency \<Rightarrow> edge \<Rightarrow> error + adjacency" where
  "adjacency_push acc e =
     (case acc of
        Inl err \<Rightarrow> Inl err
      | Inr adj \<Rightarrow>
          (case map_of adj (from_n e) of
             None \<Rightarrow> Inl TypeError
           | Some es \<Rightarrow>
               Inr (map_set adj (from_n e)
                 (es @ [\<lparr>to_n = to_n e, weight = weight e, unpaved = unpaved e, surface = surface e\<rparr>]))))"

definition build_adjacency :: "node list \<Rightarrow> edge list \<Rightarrow> error + adjacency" where
  "build_adjacency ns es =
     foldl adjacency_push (Inr (foldl (\<lambda>adj n. map_set adj (id_n n) []) [] ns)) es"

text \<open>
  \<^verbatim>\<open>String(n)\<close> for a natural number: its decimal digits (\<open>digit_char\<close> is only
  applied below 10).
\<close>

definition digit_char :: "nat \<Rightarrow> char" where
  "digit_char d = ''0123456789'' ! d"

fun string_of_nat :: "nat \<Rightarrow> string" where
  "string_of_nat n =
     (if n < 10 then [digit_char n] else string_of_nat (n div 10) @ [digit_char (n mod 10)])"

declare string_of_nat.simps [simp del]

section \<open>Road graph (osm.js)\<close>

text \<open>
  A bounding box is read through \<^verbatim>\<open>getSouthWest()\<close> and \<^verbatim>\<open>getNorthEast()\<close>.
\<close>

record bounds =
  southWest :: latlng
  northEast :: latlng

definition bboxAreaDeg2 :: "bounds \<Rightarrow> real" where
  "bboxAreaDeg2 b =
     (let sw = southWest b; ne = northEast b
      in max 0 (lat ne - lat sw) * max 0 (lng ne - lng sw))"

text \<open>
  The elements of the Overpass answer: \<^verbatim>\<open>{type: 'node', id, lat, lon}\<close>,
  \<^verbatim>\<open>{type: 'way', nodes, tags}\<close> (a missing \<^verbatim>\<open>nodes\<close> is the empty list and a
  missing \<^verbatim>\<open>tags\<close> the empty map: the program treats them alike), and anything
  else. OSM ids are natural numbers. The awaited network call is a parameter of the
  model: \<open>None\<close> when \<^verbatim>\<open>fetch\<close> or \<^verbatim>\<open>resp.json()\<close> rejects, the response
  otherwise. Of the options only \<^verbatim>\<open>maxAreaDeg2\<close> (default 0.0025) is kept: the
  others (\<^verbatim>\<open>highwayFilter\<close>, \<^verbatim>\<open>endpoint\<close>, \<^verbatim>\<open>signal\<close>) only shape the request.
\<close>

datatype element =
    RawNode nat real real
  | RawWay "nat list" "string \<rightharpoonup> string"
  | RawOther

record response =
  ok :: bool
  status :: nat
  elements :: "element list"

record options =
  maxAreaDeg2 :: "real option"

definition maxAreaDeg2_or_default :: "options \<Rightarrow> real" where
  "maxAreaDeg2_or_default opts = (case maxAreaDeg2 opts of None \<Rightarrow> 0.0025 | Some m \<Rightarrow> m)"

text \<open>
  \<^verbatim>\<open>toLowerCase\<close> on the ASCII letters; tags are taken to be ASCII strings.
  \<open>tag_or_empty tags k\<close> is \<^verbatim>\<open>(tags.k || '')\<close>.
\<close>

definition lower_char :: "char \<Rightarrow> char" where
  "lower_char c =
     (case map_of (zip ''ABCDEFGHIJKLMNOPQRSTUVWXYZ'' ''abcdefghijklmnopqrstuvwxyz'') c of
        None \<Rightarrow> c
      | Some l \<Rightarrow> l)"

definition toLowerCase :: "string \<Rightarrow> string" where
  "toLowerCase s = map lower_char s"

definition tag_or_empty :: "(string \<rightharpoonup> string) \<Rightarrow> string \<Rightarrow> string" where
  "tag_or_empty tags k = (case tags k of None \<Rightarrow> [] | Some v \<Rightarrow> v)"

definition unpavedSurfaces :: "string list" where
  "unpavedSurfaces =
     [''unpaved'', ''gravel'', ''dirt'', ''ground'', ''earth'', ''grass'', ''mud'', ''sand'',
      ''pebblestone'', ''fine_gravel'']"

definition isUnpaved :: "(string \<rightharpoonup> string) \<Rightarrow> bool" where
  "isUnpaved tags =
     (let surface_t = toLowerCase (tag_or_empty tags ''surface'');
          tracktype = toLowerCase (tag_or_empty tags ''tracktype'');
          highway = toLowerCase (tag_or_empty tags ''highway'')
      in if surface_t \<in> set unpavedSurfaces then True
         else if tracktype \<noteq> [] \<and> tracktype \<in> set [''grade2'', ''grade3'', ''grade4'', ''grade5'']
           then True
         else if highway = ''track'' then True
         else False)"

text \<open>The parsing loop over \<^verbatim>\<open>data.elements\<close>: the node map and the retained ways.\<close>

type_synonym way = "nat list \<times> (string \<rightharpoonup> string)"

definition parse_step ::
  "(nat \<times> latlng) list \<times> way list \<Rightarrow> element \<Rightarrow> (nat \<times> latlng) list \<times> way list" where
  "parse_step acc el =
     (case el of
        RawNode i la lo \<Rightarrow> (map_set (fst acc) i \<lparr>lat = la, lng = lo\<rparr>, snd acc)
      | RawWay wns tags \<Rightarrow>
          if 2 \<le> length wns then (fst acc, snd acc @ [(wns, tags)]) else acc
      | RawOther \<Rightarrow> acc)"

text \<open>The loop over \<^verbatim>\<open>nodeMap.entries()\<close>: the node list and the id mapping.\<close>

definition index_step ::
  "node list \<times> (nat \<times> string) list \<Rightarrow> nat \<times> latlng \<Rightarrow> node list \<times> (nat \<times> string) list" where
  "index_step acc entry =
     (let osmId = fst entry; coord = snd entry;
          i = ''n'' @ string_of_nat osmId
      in (fst acc @ [\<lparr>lat = lat coord, lng = lng coord, id_n = i\<rparr>], map_set (snd acc) osmId i))"

text \<open>
  The consecutive pairs \<^verbatim>\<open>(wayNodes[i], wayNodes[i + 1])\<close> for
  \<^verbatim>\<open>i < wayNodes.length - 1\<close>, and the body of the inner loop on one pair: a pair
  with an endpoint missing from the node map (or from the id mapping) is skipped.
\<close>

fun consecutive :: "'a list \<Rightarrow> ('a \<times> 'a) list" where
  "consecutive (a # b # rest) = (a, b) # consecutive (b # rest)"
| "consecutive rest = []"

definition segment_edges ::
  "(nat \<times> latlng) list \<Rightarrow> (nat \<times> string) list \<Rightarrow> bool \<Rightarrow> string \<Rightarrow> nat \<times> nat \<Rightarrow> edge list" where
  "segment_edges nodeMap idToIndex unp surf pair =
     (case (map_of nodeMap (fst pair), map_of nodeMap (snd pair)) of
        (Some a, Some b) \<Rightarrow>
          (let w = haversine a b in
           case (map_of idToIndex (fst pair), map_of idToIndex (snd pair)) of
             (Some f, Some t) \<Rightarrow>
               if f = [] \<or> t = [] then []
               else [\<lparr>to_n = t, weight = w, unpaved = unp, surface = surf, from_n = f\<rparr>,
                     \<lparr>to_n = f, weight = w, unpaved = unp, surface = surf, from_n = t\<rparr>]
           | _ \<Rightarrow> [])
      | _ \<Rightarrow> [])"

definition way_edges :: "(nat \<times> latlng) list \<Rightarrow> (nat \<times> string) list \<Rightarrow> way \<Rightarrow> edge list" where
  "way_edges nodeMap idToIndex w =
     (let wayNodes = fst w;
          unp = isUnpaved (snd w);
          surf = (if tag_or_empty (snd w) ''surface'' \<noteq> []
                  then toLowerCase (tag_or_empty (snd w) ''surface'')
                  else if unp then ''unpaved'' else ''paved'')
      in concat (map (segment_edges nodeMap idToIndex unp surf) (consecutive wayNodes)))"

definition fetchRoadGraph :: "bounds \<Rightarrow> options \<Rightarrow> response option \<Rightarrow> error + graph" where
  "fetchRoadGraph bnds opts fetched =
     (if maxAreaDeg2_or_default opts < bboxAreaDeg2 bnds then Inl AreaTooLarge
      else case fetched of
        None \<Rightarrow> Inl Rejected
      | Some resp \<Rightarrow>
          if \<not> ok resp then Inl (OverpassError (status resp))
          else
            (let parsed = foldl parse_step ([], []) (elements resp);
                 nodeMap = fst parsed;
                 ways = snd parsed;
                 indexed = foldl index_step ([], []) nodeMap;
                 ns = fst indexed;
                 idToIndex = snd indexed;
                 es = concat (map (way_edges nodeMap idToIndex) ways)
             in case build_adjacency ns es of
                  Inl err \<Rightarrow> Inl err
                | Inr adj \<Rightarrow> Inr \<lparr>nodes = ns, edges = es, adjacency = adj\<rparr>))"

lemma adjacency_push_error:
  "foldl adjacency_push acc es = Inl err \<Longrightarrow> acc = Inl err \<or> err = TypeError"
proof (induction es arbitrary: acc)
  case Nil
  then show ?case by simp
next
  case (Cons e es)
  from Cons.IH [OF Cons.prems [simplified]] show ?case
    by (auto simp: adjacency_push_def split: sum.splits option.splits)
qed

lemma build_adjacency_error: "build_adjacency ns es = Inl err \<Longrightarrow> err = TypeError"
  unfolding build_adjacency_def by (drule adjacency_push_error) simp

text \<open>
  C6. For every bounding box, given by its south-west corner \<open>(s, w)\<close> and its north-east
  corner \<open>(n, e)\<close>, and every threshold \<open>m\<close> that the caller passes as
  \<^verbatim>\<open>maxAreaDeg2\<close>, fetchRoadGraph raises AreaTooLarge exactly when the area of the box
  in square degrees, the latitude span times the longitude span (a negative span counting
  as 0), strictly exceeds \<open>m\<close>; it does not at or below \<open>m\<close>. Without a threshold from the
  caller the same holds for 0.0025. It does so whatever the network call would answer: the
  check comes before the request and before any parsing of elements.
\<close>

theorem fetchRoadGraph_area_guard:
  "((fetchRoadGraph \<lparr>southWest = \<lparr>lat = s, lng = w\<rparr>, northEast = \<lparr>lat = n, lng = e\<rparr>\<rparr>
        \<lparr>maxAreaDeg2 = Some m\<rparr> fetched = Inl AreaTooLarge)
      = (m < max 0 (n - s) * max 0 (e - w)))
   \<and> ((fetchRoadGraph \<lparr>southWest = \<lparr>lat = s, lng = w\<rparr>, northEast = \<lparr>lat = n, lng = e\<rparr>\<rparr>
        \<lparr>maxAreaDeg2 = None\<rparr> fetched = Inl AreaTooLarge)
      = (0.0025 < max 0 (n - s) * max 0 (e - w)))"
  by (auto simp: fetchRoadGraph_def bboxAreaDeg2_def maxAreaDeg2_or_default_def Let_def
      split: option.splits sum.splits dest: build_adjacency_error)

theorem fetchRoadGraph_area_guard_witness:
  "fetchRoadGraph
      \<lparr>southWest = \<lparr>lat = 30, lng = 76\<rparr>, northEast = \<lparr>lat = 31, lng = 77\<rparr>\<rparr>
      \<lparr>maxAreaDeg2 = Some 1\<rparr> (Some \<lparr>ok = True, status = 200, elements = []\<rparr>)
     \<noteq> Inl AreaTooLarge
   \<and> fetchRoadGraph
      \<lparr>southWest = \<lparr>lat = 30, lng = 76\<rparr>, northEast = \<lparr>lat = 31, lng = 78\<rparr>\<rparr>
      \<lparr>maxAreaDeg2 = Some 1\<rparr> (Some \<lparr>ok = True, status = 200, elements = []\<rparr>)
     = Inl AreaTooLarge
   \<and> fetchRoadGraph
      \<lparr>southWest = \<lparr>lat = 30, lng = 76\<rparr>, northEast = \<lparr>lat = 31, lng = 78\<rparr>\<rparr>
      \<lparr>maxAreaDeg2 = Some 3\<rparr> None
     \<noteq> Inl AreaTooLarge
   \<and> fetchRoadGraph
      \<lparr>southWest = \<lparr>lat = 30, lng = 76\<rparr>, northEast = \<lparr>lat = 30.05, lng = 76.05\<rparr>\<rparr>
      \<lparr>maxAreaDeg2 = Some 0.001\<rparr> None
     = Inl AreaTooLarge
   \<and> fetchRoadGraph
      \<lparr>southWest = \<lparr>lat = 30, lng = 76\<rparr>, northEast = \<lparr>lat = 30.05, lng = 76.05\<rparr>\<rparr>
      \<lparr>maxAreaDeg2 = None\<rparr> None
     \<noteq> Inl AreaTooLarge
   \<and> fetchRoadGraph
      \<lparr>southWest = \<lparr>lat = 31, lng = 78\<rparr>, northEast = \<lparr>lat = 30, lng = 76\<rparr>\<rparr>
      \<lparr>maxAreaDeg2 = Some 0\<rparr> None
     \<noteq> Inl AreaTooLarge"
  using fetchRoadGraph_area_guard [of 30 76 31 77 1 "Some \<lparr>ok = True, status = 200, elements = []\<rparr>"]
    fetchRoadGraph_area_guard [of 30 76 31 78 1 "Some \<lparr>ok = True, status = 200, elements = []\<rparr>"]
    fetchRoadGraph_area_guard [of 30 76 31 78 3 None]
    fetchRoadGraph_area_guard [of 30 76 "30.05" "76.05" "0.001" None]
    fetchRoadGraph_area_guard [of 31 78 30 76 0 None]
  by simp

subsection \<open>Classification and edges of the road graph\<close>


lemma keys_map_set: "fst ` set (map_set m k v) = insert k (fst ` set m)"
  by (induction m) (force split: if_splits)+






lemma consecutive_mem:
  "(a, b) \<in> set (consecutive xs) \<Longrightarrow> a \<in> set xs \<and> b \<in> set xs"
  by (induction xs rule: consecutive.induct) auto


lemma adjacency_push_ok:
  assumes "\<forall>e \<in> set es. from_n e \<in> fst ` set adj"
  shows "\<exists>adj'. foldl adjacency_push (Inr adj) es = Inr adj' \<and> fst ` set adj' = fst ` set adj"
  using assms
proof (induction es arbitrary: adj)
  case Nil
  then show ?case by simp
next
  case (Cons e es)
  then have "from_n e \<in> fst ` set adj" by simp
  then obtain old where old: "map_of adj (from_n e) = Some old"
    by (metis domD dom_map_of_conv_image_fst)
  let ?adj1 = "map_set adj (from_n e)
      (old @ [\<lparr>to_n = to_n e, weight = weight e, unpaved = unpaved e, surface = surface e\<rparr>])"
  have step: "adjacency_push (Inr adj) e = Inr ?adj1"
    by (simp add: adjacency_push_def old)
  have keys: "fst ` set ?adj1 = fst ` set adj"
    using \<open>from_n e \<in> fst ` set adj\<close> by (auto simp: keys_map_set)
  with Cons.prems have "\<forall>e' \<in> set es. from_n e' \<in> fst ` set ?adj1" by simp
  from Cons.IH [OF this] keys step show ?case by simp
qed

lemma init_adjacency_keys:
  "fst ` set (foldl (\<lambda>adj n. map_set adj (id_n n) []) acc ns) = fst ` set acc \<union> id_n ` set ns"
  by (induction ns arbitrary: acc) (auto simp: keys_map_set)

lemma build_adjacency_ok:
  assumes "\<forall>e \<in> set es. from_n e \<in> id_n ` set ns"
  shows "\<exists>adj. build_adjacency ns es = Inr adj \<and> fst ` set adj = id_n ` set ns"
proof -
  let ?init = "foldl (\<lambda>adj n. map_set adj (id_n n) []) ([] :: adjacency) ns"
  have k: "fst ` set ?init = id_n ` set ns"
    by (simp add: init_adjacency_keys)
  with assms have "\<forall>e \<in> set es. from_n e \<in> fst ` set ?init" by simp
  from adjacency_push_ok [OF this] k show ?thesis
    by (simp add: build_adjacency_def)
qed









section \<open>Grid graph (graph.js)\<close>

text \<open>
  \<^verbatim>\<open>buildGridGraph(center, rows, cols, delta)\<close>. The counts \<^verbatim>\<open>rows\<close> and
  \<^verbatim>\<open>cols\<close> are natural numbers. The two nested \<^verbatim>\<open>for\<close> loops are folds over
  \<open>[0..<rows]\<close> and \<open>[0..<cols]\<close>; the state of the node loop is the node array with
  the counter \<^verbatim>\<open>id\<close>.
\<close>

definition idx :: "nat \<Rightarrow> nat \<Rightarrow> nat \<Rightarrow> nat" where
  "idx cols r c = r * cols + c"

definition node_step ::
  "real \<Rightarrow> real \<Rightarrow> real \<Rightarrow> nat \<Rightarrow> node list \<times> nat \<Rightarrow> nat \<Rightarrow> node list \<times> nat" where
  "node_step startLat startLng delta r acc c =
     (fst acc @ [\<lparr>lat = startLat + real r * delta, lng = startLng + real c * delta,
                 id_n = string_of_nat (snd acc)\<rparr>],
      snd acc + 1)"

definition grid_nodes :: "latlng \<Rightarrow> nat \<Rightarrow> nat \<Rightarrow> real \<Rightarrow> node list" where
  "grid_nodes center rows cols delta =
     (let startLat = lat center - (real rows - 1) * delta / 2;
          startLng = lng center - (real cols - 1) * delta / 2
      in fst (foldl (\<lambda>acc r. foldl (node_step startLat startLng delta r) acc [0..<cols])
                ([], 0) [0..<rows]))"

text \<open>
  \<^verbatim>\<open>nodes[i]\<close> is \<^verbatim>\<open>undefined\<close> (\<open>None\<close>) out of range; reading \<^verbatim>\<open>.id\<close>
  or \<^verbatim>\<open>.lat\<close> of it, as the edge loop does on both endpoints before it pushes the
  edge, is a TypeError.
\<close>

definition index_opt :: "'a list \<Rightarrow> nat \<Rightarrow> 'a option" where
  "index_opt xs i = (if i < length xs then Some (xs ! i) else None)"

definition neighbors :: "nat \<Rightarrow> nat \<Rightarrow> nat \<Rightarrow> nat \<Rightarrow> nat list" where
  "neighbors rows cols r c =
     (if 0 < r then [idx cols (r - 1) c] else [])
     @ (if r < rows - 1 then [idx cols (r + 1) c] else [])
     @ (if 0 < c then [idx cols r (c - 1)] else [])
     @ (if c < cols - 1 then [idx cols r (c + 1)] else [])"

definition neighbor_step :: "node list \<Rightarrow> node option \<Rightarrow> error + edge list \<Rightarrow> nat \<Rightarrow> error + edge list" where
  "neighbor_step ns a acc j =
     (case acc of
        Inl err \<Rightarrow> Inl err
      | Inr es \<Rightarrow>
          (case (a, index_opt ns j) of
             (Some a', Some b) \<Rightarrow>
               Inr (es @ [\<lparr>to_n = id_n b, weight = haversine a' b, unpaved = False,
                           surface = ''paved'', from_n = id_n a'\<rparr>])
           | _ \<Rightarrow> Inl TypeError))"

definition grid_edges :: "node list \<Rightarrow> nat \<Rightarrow> nat \<Rightarrow> error + edge list" where
  "grid_edges ns rows cols =
     foldl (\<lambda>acc r.
        foldl (\<lambda>acc c.
           foldl (neighbor_step ns (index_opt ns (idx cols r c))) acc (neighbors rows cols r c))
          acc [0..<cols])
       (Inr []) [0..<rows]"

definition buildGridGraph :: "latlng \<Rightarrow> nat \<Rightarrow> nat \<Rightarrow> real \<Rightarrow> error + graph" where
  "buildGridGraph center rows cols delta =
     (let ns = grid_nodes center rows cols delta in
      case grid_edges ns rows cols of
        Inl err \<Rightarrow> Inl err
      | Inr es \<Rightarrow>
          (case build_adjacency ns es of
             Inl err \<Rightarrow> Inl err
           | Inr adj \<Rightarrow> Inr \<lparr>nodes = ns, edges = es, adjacency = adj\<rparr>))"


subsection \<open>The nodes and edges in closed form\<close>

definition grid_node :: "latlng \<Rightarrow> nat \<Rightarrow> nat \<Rightarrow> real \<Rightarrow> nat \<Rightarrow> nat \<Rightarrow> node" where
  "grid_node center rows cols delta r c =
     \<lparr>lat = lat center - (real rows - 1) * delta / 2 + real r * delta,
      lng = lng center - (real cols - 1) * delta / 2 + real c * delta,
      id_n = string_of_nat (r * cols + c)\<rparr>"

lemma node_row:
  "foldl (node_step sl sg d r) (ns, i) [0..<n]
     = (ns @ map (\<lambda>c. \<lparr>lat = sl + real r * d, lng = sg + real c * d, id_n = string_of_nat (i + c)\<rparr>) [0..<n],
        i + n)"
  by (induction n) (simp_all add: node_step_def)

lemma node_rows:
  "foldl (\<lambda>acc r. foldl (node_step sl sg d r) acc [0..<cols]) ([], 0) [0..<m]
     = (concat (map (\<lambda>r. map (\<lambda>c. \<lparr>lat = sl + real r * d, lng = sg + real c * d,
                                     id_n = string_of_nat (r * cols + c)\<rparr>) [0..<cols]) [0..<m]),
        m * cols)"
  by (induction m) (simp_all add: node_row)

lemma grid_nodes_eq:
  "grid_nodes center rows cols delta
     = concat (map (\<lambda>r. map (grid_node center rows cols delta r) [0..<cols]) [0..<rows])"
  by (simp add: grid_nodes_def Let_def node_rows grid_node_def [abs_def])

lemma concat_rows_length:
  "length (concat (map (\<lambda>r. map (f r) [0..<cols]) [0..<m])) = m * cols"
  by (induction m) simp_all

lemma concat_rows_nth:
  "r < m \<Longrightarrow> c < cols \<Longrightarrow>
   concat (map (\<lambda>r. map (f r) [0..<cols]) [0..<m]) ! (r * cols + c) = f r c"
proof (induction m)
  case 0
  then show ?case by simp
next
  case (Suc m)
  show ?case
  proof (cases "r < m")
    case True
    then have "r * cols + c < m * cols"
      using Suc.prems(2)
      by (metis add.commute add_less_cancel_left less_le_trans mult_Suc mult_le_mono1 Suc_leI)
    with Suc.IH [OF True Suc.prems(2)] show ?thesis
      by (simp add: nth_append concat_rows_length)
  next
    case False
    with Suc.prems have "r = m" by simp
    then show ?thesis
      using Suc.prems(2) by (simp add: nth_append concat_rows_length)
  qed
qed


lemma idx_in_range: "r < rows \<Longrightarrow> c < cols \<Longrightarrow> idx cols r c < rows * cols"
proof -
  assume "r < rows" "c < cols"
  then have "r * cols + c < r * cols + cols" by simp
  also have "\<dots> = Suc r * cols" by simp
  also have "\<dots> \<le> rows * cols"
    using \<open>r < rows\<close> by (intro mult_le_mono1) simp
  finally show ?thesis by (simp add: idx_def)
qed

lemma neighbors_in_range:
  assumes "r < rows" "c < cols" "j \<in> set (neighbors rows cols r c)"
  shows "j < rows * cols"
proof -
  from assms(3) consider "0 < r" "j = idx cols (r - 1) c" | "r < rows - 1" "j = idx cols (r + 1) c"
    | "0 < c" "j = idx cols r (c - 1)" | "c < cols - 1" "j = idx cols r (c + 1)"
    by (auto simp: neighbors_def split: if_splits)
  then show ?thesis
  proof cases
    case 1
    then show ?thesis using assms(1,2) by (simp add: idx_in_range)
  next
    case 2
    then show ?thesis using assms(1,2) by (simp add: idx_in_range)
  next
    case 3
    then show ?thesis using assms(1,2) by (simp add: idx_in_range)
  next
    case 4
    then show ?thesis using assms(1,2) by (simp add: idx_in_range)
  qed
qed

definition grid_edge :: "node \<Rightarrow> node \<Rightarrow> edge" where
  "grid_edge a b = \<lparr>to_n = id_n b, weight = haversine a b, unpaved = False,
                    surface = ''paved'', from_n = id_n a\<rparr>"

definition cell_edges :: "node list \<Rightarrow> nat \<Rightarrow> nat \<Rightarrow> nat \<Rightarrow> nat \<Rightarrow> edge list" where
  "cell_edges ns rows cols r c =
     map (\<lambda>j. grid_edge (ns ! idx cols r c) (ns ! j)) (neighbors rows cols r c)"

lemma neighbor_fold:
  assumes "\<forall>j \<in> set js. j < length ns"
  shows "foldl (neighbor_step ns (Some a)) (Inr es) js = Inr (es @ map (\<lambda>j. grid_edge a (ns ! j)) js)"
  using assms
  by (induction js arbitrary: es) (simp_all add: neighbor_step_def index_opt_def grid_edge_def)

lemma cell_fold:
  assumes "length ns = rows * cols" "r < rows" "c < cols"
  shows "foldl (neighbor_step ns (index_opt ns (idx cols r c))) (Inr es) (neighbors rows cols r c)
           = Inr (es @ cell_edges ns rows cols r c)"
proof -
  have "index_opt ns (idx cols r c) = Some (ns ! idx cols r c)"
    using assms by (simp add: index_opt_def idx_in_range)
  moreover have "\<forall>j \<in> set (neighbors rows cols r c). j < length ns"
    using assms neighbors_in_range by simp
  ultimately show ?thesis
    by (simp add: neighbor_fold cell_edges_def)
qed

lemma row_fold:
  assumes "length ns = rows * cols" "r < rows" "n \<le> cols"
  shows "foldl (\<lambda>acc c.
           foldl (neighbor_step ns (index_opt ns (idx cols r c))) acc (neighbors rows cols r c))
          (Inr es) [0..<n]
         = Inr (es @ concat (map (cell_edges ns rows cols r) [0..<n]))"
  using assms(3)
proof (induction n)
  case 0
  then show ?case by simp
next
  case (Suc n)
  then show ?case
    using cell_fold [OF assms(1,2), of n] by simp
qed

lemma grid_fold:
  assumes "length ns = rows * cols" "m \<le> rows"
  shows "foldl (\<lambda>acc r.
        foldl (\<lambda>acc c.
           foldl (neighbor_step ns (index_opt ns (idx cols r c))) acc (neighbors rows cols r c))
          acc [0..<cols])
       (Inr []) [0..<m]
      = Inr (concat (map (\<lambda>r. concat (map (cell_edges ns rows cols r) [0..<cols])) [0..<m]))"
  using assms(2)
proof (induction m)
  case 0
  then show ?case by simp
next
  case (Suc m)
  then show ?case
    using row_fold [OF assms(1), of m cols] by simp
qed

lemma grid_edges_eq:
  assumes "length ns = rows * cols"
  shows "grid_edges ns rows cols
      = Inr (concat (map (\<lambda>r. concat (map (cell_edges ns rows cols r) [0..<cols])) [0..<rows]))"
  unfolding grid_edges_def using grid_fold [OF assms, of rows] by simp

lemma count_positive: "(\<Sum>c\<leftarrow>[0..<n]. if 0 < c then 1 else 0) = n - (1::nat)"
  by (induction n) auto

lemma count_below: "(\<Sum>c\<leftarrow>[0..<n]. if c < k then 1 else 0) = min n (k::nat)"
  by (induction n) auto

lemma length_neighbors:
  "length (neighbors rows cols r c)
     = (if 0 < r then 1 else 0) + (if r < rows - 1 then 1 else 0)
       + ((if 0 < c then 1 else 0) + (if c < cols - 1 then 1 else 0))"
  by (simp add: neighbors_def)

lemma row_count:
  "(\<Sum>c\<leftarrow>[0..<cols]. length (cell_edges ns rows cols r c))
     = cols * ((if 0 < r then 1 else 0) + (if r < rows - 1 then 1 else 0)) + 2 * (cols - 1)"
proof -
  have "(\<Sum>c\<leftarrow>[0..<cols]. length (cell_edges ns rows cols r c))
      = (\<Sum>c\<leftarrow>[0..<cols]. (if 0 < r then 1 else 0) + (if r < rows - 1 then 1 else 0))
        + ((\<Sum>c\<leftarrow>[0..<cols]. if 0 < c then 1 else 0) + (\<Sum>c\<leftarrow>[0..<cols]. if c < cols - 1 then 1 else 0))"
    unfolding cell_edges_def length_map length_neighbors sum_list_addf ..
  also have "\<dots> = cols * ((if 0 < r then 1 else 0) + (if r < rows - 1 then 1 else 0)) + 2 * (cols - 1)"
    unfolding count_positive count_below by (simp add: sum_list_triv)
  finally show ?thesis .
qed

lemma grid_count:
  "length (concat (map (\<lambda>r. concat (map (cell_edges ns rows cols r) [0..<cols])) [0..<rows]))
     = 2 * (rows * (cols - 1) + cols * (rows - 1))"
proof -
  have "length (concat (map (\<lambda>r. concat (map (cell_edges ns rows cols r) [0..<cols])) [0..<rows]))
      = (\<Sum>r\<leftarrow>[0..<rows]. \<Sum>c\<leftarrow>[0..<cols]. length (cell_edges ns rows cols r c))"
    by (simp add: length_concat comp_def)
  also have "\<dots> = (\<Sum>r\<leftarrow>[0..<rows]. cols * (if 0 < r then 1 else 0) + cols * (if r < rows - 1 then 1 else 0))
                   + (\<Sum>r\<leftarrow>[0..<rows]. 2 * (cols - 1))"
    unfolding row_count sum_list_addf [symmetric] by (simp add: algebra_simps)
  also have "\<dots> = cols * (\<Sum>r\<leftarrow>[0..<rows]. if 0 < r then 1 else 0)
                   + cols * (\<Sum>r\<leftarrow>[0..<rows]. if r < rows - 1 then 1 else 0)
                   + rows * (2 * (cols - 1))"
    by (simp add: sum_list_addf sum_list_const_mult sum_list_triv)
  also have "\<dots> = 2 * (rows * (cols - 1) + cols * (rows - 1))"
    unfolding count_positive count_below by simp
  finally show ?thesis .
qed


lemma neighbors_lattice:
  assumes "r < rows" "c < cols" "j \<in> set (neighbors rows cols r c)"
  shows "\<exists>r' c'. r' < rows \<and> c' < cols \<and> j = idx cols r' c'
           \<and> (r' = r \<and> (c' = c + 1 \<or> c = c' + 1) \<or> c' = c \<and> (r' = r + 1 \<or> r = r' + 1))
           \<and> idx cols r c \<in> set (neighbors rows cols r' c')"
proof -
  from assms(3) consider "0 < r" "j = idx cols (r - 1) c" | "r < rows - 1" "j = idx cols (r + 1) c"
    | "0 < c" "j = idx cols r (c - 1)" | "c < cols - 1" "j = idx cols r (c + 1)"
    by (auto simp: neighbors_def split: if_splits)
  then show ?thesis
  proof cases
    case 1
    with assms(1,2) show ?thesis
      by (intro exI [of _ "r - 1"] exI [of _ c]) (auto simp: neighbors_def)
  next
    case 2
    with assms(1,2) show ?thesis
      by (intro exI [of _ "r + 1"] exI [of _ c]) (auto simp: neighbors_def)
  next
    case 3
    with assms(1,2) show ?thesis
      by (intro exI [of _ r] exI [of _ "c - 1"]) (auto simp: neighbors_def)
  next
    case 4
    with assms(1,2) show ?thesis
      by (intro exI [of _ r] exI [of _ "c + 1"]) (auto simp: neighbors_def)
  qed
qed

lemma grid_edges_set:
  "(e \<in> set (concat (map (\<lambda>r. concat (map (cell_edges ns rows cols r) [0..<cols])) [0..<rows])))
     = (\<exists>r \<in> {0..<rows}. \<exists>c \<in> {0..<cols}. \<exists>j \<in> set (neighbors rows cols r c).
          e = grid_edge (ns ! idx cols r c) (ns ! j))"
  by (auto simp: cell_edges_def)

definition lattice_adjacent :: "nat \<times> nat \<Rightarrow> nat \<times> nat \<Rightarrow> bool" where
  "lattice_adjacent p q =
     (fst q = fst p \<and> (snd q = snd p + 1 \<or> snd p = snd q + 1)
      \<or> snd q = snd p \<and> (fst q = fst p + 1 \<or> fst p = fst q + 1))"

text \<open>Decimal strings of different numbers differ, and so do the indices of different cells.\<close>

lemma digit_char_inj: "a < 10 \<Longrightarrow> b < 10 \<Longrightarrow> digit_char a = digit_char b \<Longrightarrow> a = b"
proof -
  assume a: "a < 10" and b: "b < 10" and eq: "digit_char a = digit_char b"
  have d: "distinct ''0123456789''" by simp
  have "a < length ''0123456789''" "b < length ''0123456789''" using a b by simp_all
  with d eq show "a = b"
    unfolding digit_char_def by (simp only: nth_eq_iff_index_eq)
qed

lemma string_of_nat_length: "0 < length (string_of_nat n)"
  by (subst string_of_nat.simps) simp

lemma string_of_nat_inj: "string_of_nat n = string_of_nat m \<Longrightarrow> n = m"
proof (induction n arbitrary: m rule: less_induct)
  case (less n)
  show ?case
  proof (cases "n < 10")
    case True
    show ?thesis
    proof (cases "m < 10")
      case m: True
      from less.prems True m have "digit_char n = digit_char m"
        by (simp add: string_of_nat.simps [of n] string_of_nat.simps [of m])
      with True m show ?thesis by (rule digit_char_inj)
    next
      case False
      from less.prems True False have "[digit_char n] = string_of_nat (m div 10) @ [digit_char (m mod 10)]"
        by (simp add: string_of_nat.simps [of n] string_of_nat.simps [of m])
      then have "string_of_nat (m div 10) = []" by simp
      with string_of_nat_length [of "m div 10"] show ?thesis by simp
    qed
  next
    case False
    show ?thesis
    proof (cases "m < 10")
      case True
      from less.prems True False have "string_of_nat (n div 10) @ [digit_char (n mod 10)] = [digit_char m]"
        by (simp add: string_of_nat.simps [of n] string_of_nat.simps [of m])
      then have "string_of_nat (n div 10) = []" by simp
      with string_of_nat_length [of "n div 10"] show ?thesis by simp
    next
      case m: False
      from less.prems False m have eq: "string_of_nat (n div 10) = string_of_nat (m div 10)"
        "digit_char (n mod 10) = digit_char (m mod 10)"
        by (simp_all add: string_of_nat.simps [of n] string_of_nat.simps [of m])
      have "n div 10 < n" using False by simp
      from less.IH [OF this eq(1)] have d: "n div 10 = m div 10" .
      have "n mod 10 = m mod 10"
        using eq(2) by (intro digit_char_inj) simp_all
      with d show ?thesis by (metis div_mult_mod_eq)
    qed
  qed
qed

lemma idx_eq_iff:
  assumes "c < cols" "c' < cols"
  shows "(idx cols r c = idx cols r' c') = (r = r' \<and> c = c')"
proof
  assume eq: "idx cols r c = idx cols r' c'"
  then have "(r * cols + c) div cols = (r' * cols + c') div cols"
    "(r * cols + c) mod cols = (r' * cols + c') mod cols"
    by (simp_all add: idx_def)
  with assms show "r = r' \<and> c = c'" by simp
qed simp

lemma neighbors_filter:
  assumes "r < rows" "c < cols" "r' < rows" "c' < cols" "lattice_adjacent (r, c) (r', c')"
  shows "filter (\<lambda>j. j = idx cols r' c') (neighbors rows cols r c) = [idx cols r' c']"
proof -
  from assms(5) consider "r' = r" "c' = c + 1" | "r' = r" "c = c' + 1"
    | "c' = c" "r' = r + 1" | "c' = c" "r = r' + 1"
    unfolding lattice_adjacent_def fst_conv snd_conv by blast
  then show ?thesis
  proof cases
    case 1
    with assms(1,2,3,4) show ?thesis by (simp add: neighbors_def idx_eq_iff; arith)
  next
    case 2
    with assms(1,2,3,4) show ?thesis by (simp add: neighbors_def idx_eq_iff; arith)
  next
    case 3
    with assms(1,2,3,4) show ?thesis by (simp add: neighbors_def idx_eq_iff; arith)
  next
    case 4
    with assms(1,2,3,4) show ?thesis by (simp add: neighbors_def idx_eq_iff; arith)
  qed
qed

lemma concat_single:
  "i < n \<Longrightarrow> (\<forall>k < n. k \<noteq> i \<longrightarrow> f k = []) \<Longrightarrow> concat (map f [0..<n]) = f i"
proof (induction n)
  case 0
  then show ?case by simp
next
  case (Suc n)
  show ?case
  proof (cases "i = n")
    case True
    have "concat (map f [0..<n]) = []"
      using Suc.prems(2) True by simp
    then show ?thesis using True by simp
  next
    case False
    with Suc.prems have "i < n" "\<forall>k < n. k \<noteq> i \<longrightarrow> f k = []" "f n = []" by simp_all
    with Suc.IH show ?thesis by simp
  qed
qed

lemma filter_cells:
  assumes rc: "r < rows" "c < cols"
    and P: "\<And>r0 c0 j. r0 < rows \<Longrightarrow> c0 < cols \<Longrightarrow> j \<in> set (neighbors rows cols r0 c0)
              \<Longrightarrow> P (grid_edge (ns ! idx cols r0 c0) (ns ! j)) = (r0 = r \<and> c0 = c \<and> j = b)"
  shows "filter P (concat (map (\<lambda>r0. concat (map (cell_edges ns rows cols r0) [0..<cols])) [0..<rows]))
       = map (\<lambda>j. grid_edge (ns ! idx cols r c) (ns ! j)) (filter (\<lambda>j. j = b) (neighbors rows cols r c))"
proof -
  have cell: "filter P (cell_edges ns rows cols r0 c0)
      = (if r0 = r \<and> c0 = c
         then map (\<lambda>j. grid_edge (ns ! idx cols r c) (ns ! j)) (filter (\<lambda>j. j = b) (neighbors rows cols r c))
         else [])" if "r0 < rows" "c0 < cols" for r0 c0
  proof -
    have "filter P (cell_edges ns rows cols r0 c0)
        = map (\<lambda>j. grid_edge (ns ! idx cols r0 c0) (ns ! j))
            (filter (\<lambda>j. r0 = r \<and> c0 = c \<and> j = b) (neighbors rows cols r0 c0))"
      unfolding cell_edges_def filter_map comp_def
      using P [OF that] by (intro arg_cong [where f = "map _"] filter_cong) simp_all
    then show ?thesis by (cases "r0 = r \<and> c0 = c") auto
  qed
  have row: "concat (map (\<lambda>c0. filter P (cell_edges ns rows cols r0 c0)) [0..<cols])
      = (if r0 = r
         then map (\<lambda>j. grid_edge (ns ! idx cols r c) (ns ! j)) (filter (\<lambda>j. j = b) (neighbors rows cols r c))
         else [])" if "r0 < rows" for r0
  proof (cases "r0 = r")
    case True
    have "concat (map (\<lambda>c0. filter P (cell_edges ns rows cols r0 c0)) [0..<cols])
        = filter P (cell_edges ns rows cols r0 c)"
      using rc(2) cell [OF that] True by (intro concat_single) simp_all
    then show ?thesis using True cell [OF that rc(2)] by simp
  next
    case False
    have "\<forall>xs \<in> set (map (\<lambda>c0. filter P (cell_edges ns rows cols r0 c0)) [0..<cols]). xs = []"
      using cell [OF that] False by simp
    then have "concat (map (\<lambda>c0. filter P (cell_edges ns rows cols r0 c0)) [0..<cols]) = []"
      by (simp only: concat_eq_Nil_conv)
    then show ?thesis using False by simp
  qed
  have "filter P (concat (map (\<lambda>r0. concat (map (cell_edges ns rows cols r0) [0..<cols])) [0..<rows]))
      = concat (map (\<lambda>r0. concat (map (\<lambda>c0. filter P (cell_edges ns rows cols r0 c0)) [0..<cols])) [0..<rows])"
    by (simp add: filter_concat comp_def)
  also have "\<dots> = concat (map (\<lambda>c0. filter P (cell_edges ns rows cols r c0)) [0..<cols])"
    using rc(1) row by (intro concat_single) simp_all
  also have "\<dots> = map (\<lambda>j. grid_edge (ns ! idx cols r c) (ns ! j)) (filter (\<lambda>j. j = b) (neighbors rows cols r c))"
    using row [OF rc(1)] by simp
  finally show ?thesis .
qed

text \<open>
  C7. For every center, every rows \<open>r \<ge> 1\<close> and cols \<open>c \<ge> 1\<close> and every spacing,
  buildGridGraph returns a graph (it does not throw) with exactly \<open>r * c\<close> nodes; the node
  at lattice position (row, col) is at index \<open>row * c + col\<close>, its id is the decimal string
  of that index, and its coordinate is the center shifted by \<open>(row - (r - 1) / 2) * delta\<close>
  in latitude and \<open>(col - (c - 1) / 2) * delta\<close> in longitude, so the lattice is centered
  on the center. The graph has exactly \<open>2 * (r * (c - 1) + c * (r - 1))\<close> directed edges, every
  one Paved, every one between two 4-neighbours of the lattice, and every one with its
  opposing edge of equal weight. Conversely, for every ordered pair of 4-neighbours of the
  lattice the edge list holds exactly one edge from the first to the second, weighted by
  the haversine distance of the two nodes: each adjacent pair has its two opposing edges
  and no others. (With \<open>r, c \<ge> 1\<close> the subtractions on natural numbers are the integer
  ones.)
\<close>

theorem buildGridGraph_shape:
  assumes "1 \<le> rows" and "1 \<le> cols"
  shows "\<exists>g. buildGridGraph center rows cols delta = Inr g
     \<and> length (nodes g) = rows * cols
     \<and> (\<forall>r < rows. \<forall>c < cols.
          nodes g ! (r * cols + c)
            = \<lparr>lat = lat center - (real rows - 1) * delta / 2 + real r * delta,
               lng = lng center - (real cols - 1) * delta / 2 + real c * delta,
               id_n = string_of_nat (r * cols + c)\<rparr>)
     \<and> length (edges g) = 2 * (rows * (cols - 1) + cols * (rows - 1))
     \<and> (\<forall>e \<in> set (edges g). \<not> unpaved e \<and> surface e = ''paved'')
     \<and> (\<forall>e \<in> set (edges g). \<exists>r c r' c'. r < rows \<and> c < cols \<and> r' < rows \<and> c' < cols
          \<and> lattice_adjacent (r, c) (r', c')
          \<and> from_n e = string_of_nat (r * cols + c) \<and> to_n e = string_of_nat (r' * cols + c')
          \<and> (\<exists>e' \<in> set (edges g). from_n e' = to_n e \<and> to_n e' = from_n e \<and> weight e' = weight e))
     \<and> (\<forall>r < rows. \<forall>c < cols. \<forall>r' < rows. \<forall>c' < cols. lattice_adjacent (r, c) (r', c') \<longrightarrow>
          (\<exists>e. filter (\<lambda>e. from_n e = string_of_nat (r * cols + c)
                           \<and> to_n e = string_of_nat (r' * cols + c')) (edges g) = [e]
             \<and> weight e = haversine (nodes g ! (r * cols + c)) (nodes g ! (r' * cols + c'))))"
proof -
  define ns where "ns = grid_nodes center rows cols delta"
  define es where
    "es = concat (map (\<lambda>r. concat (map (cell_edges ns rows cols r) [0..<cols])) [0..<rows])"
  have len: "length ns = rows * cols"
    by (simp add: ns_def grid_nodes_eq concat_rows_length)
  have nth: "ns ! idx cols r c = grid_node center rows cols delta r c" if "r < rows" "c < cols" for r c
    using that by (simp add: ns_def grid_nodes_eq idx_def concat_rows_nth)
  have ges: "grid_edges ns rows cols = Inr es"
    by (simp add: grid_edges_eq [OF len] es_def)
  have mem: "\<exists>r c r' c'. r < rows \<and> c < cols \<and> r' < rows \<and> c' < cols
          \<and> lattice_adjacent (r, c) (r', c')
          \<and> e = grid_edge (ns ! idx cols r c) (ns ! idx cols r' c')
          \<and> grid_edge (ns ! idx cols r' c') (ns ! idx cols r c) \<in> set es" if "e \<in> set es" for e
  proof -
    from that obtain r c j where rc: "r < rows" "c < cols" "j \<in> set (neighbors rows cols r c)"
      and e: "e = grid_edge (ns ! idx cols r c) (ns ! j)"
      unfolding es_def grid_edges_set by auto
    from neighbors_lattice [OF rc] obtain r' c' where n: "r' < rows" "c' < cols" "j = idx cols r' c'"
      "r' = r \<and> (c' = c + 1 \<or> c = c' + 1) \<or> c' = c \<and> (r' = r + 1 \<or> r = r' + 1)"
      "idx cols r c \<in> set (neighbors rows cols r' c')"
      by blast
    have "grid_edge (ns ! idx cols r' c') (ns ! idx cols r c) \<in> set es"
      unfolding es_def grid_edges_set using n(1,2,5)
      by (intro bexI [of _ r'] bexI [of _ c'] bexI [of _ "idx cols r c"]) simp_all
    with rc(1,2) n(1,2,3,4) e show ?thesis
      unfolding lattice_adjacent_def fst_conv snd_conv by blast
  qed
  have from_ok: "\<forall>e \<in> set es. from_n e \<in> id_n ` set ns"
  proof
    fix e assume "e \<in> set es"
    from mem [OF this] obtain r c r' c' where "r < rows" "c < cols"
      "e = grid_edge (ns ! idx cols r c) (ns ! idx cols r' c')"
      by blast
    then show "from_n e \<in> id_n ` set ns"
      using idx_in_range [of r rows c cols] len by (simp add: grid_edge_def)
  qed
  from build_adjacency_ok [OF from_ok] obtain adj where adj: "build_adjacency ns es = Inr adj"
    by blast
  have g: "buildGridGraph center rows cols delta = Inr \<lparr>nodes = ns, edges = es, adjacency = adj\<rparr>"
    by (simp add: buildGridGraph_def Let_def ns_def [symmetric] ges adj)
  have nodes_at: "\<forall>r < rows. \<forall>c < cols.
          ns ! (r * cols + c)
            = \<lparr>lat = lat center - (real rows - 1) * delta / 2 + real r * delta,
               lng = lng center - (real cols - 1) * delta / 2 + real c * delta,
               id_n = string_of_nat (r * cols + c)\<rparr>"
    using nth by (simp add: idx_def grid_node_def)
  have count: "length es = 2 * (rows * (cols - 1) + cols * (rows - 1))"
    unfolding es_def by (rule grid_count)
  have paved: "\<forall>e \<in> set es. \<not> unpaved e \<and> surface e = ''paved''"
    using mem by (fastforce simp: grid_edge_def)
  have pairs: "\<forall>e \<in> set es. \<exists>r c r' c'. r < rows \<and> c < cols \<and> r' < rows \<and> c' < cols
          \<and> lattice_adjacent (r, c) (r', c')
          \<and> from_n e = string_of_nat (r * cols + c) \<and> to_n e = string_of_nat (r' * cols + c')
          \<and> (\<exists>e' \<in> set es. from_n e' = to_n e \<and> to_n e' = from_n e \<and> weight e' = weight e)"
  proof
    fix e assume "e \<in> set es"
    from mem [OF this] obtain r c r' c' where rc: "r < rows" "c < cols" "r' < rows" "c' < cols"
      "lattice_adjacent (r, c) (r', c')"
      and e: "e = grid_edge (ns ! idx cols r c) (ns ! idx cols r' c')"
      and opp: "grid_edge (ns ! idx cols r' c') (ns ! idx cols r c) \<in> set es"
      by blast
    have "from_n e = string_of_nat (r * cols + c)" "to_n e = string_of_nat (r' * cols + c')"
      using rc by (simp_all add: e grid_edge_def nth grid_node_def)
    moreover have "\<exists>e' \<in> set es. from_n e' = to_n e \<and> to_n e' = from_n e \<and> weight e' = weight e"
      using opp
      by (rule bexI [rotated])
        (simp add: e grid_edge_def haversine_commute [of "ns ! idx cols r c" "ns ! idx cols r' c'"])
    ultimately show "\<exists>r c r' c'. r < rows \<and> c < cols \<and> r' < rows \<and> c' < cols
          \<and> lattice_adjacent (r, c) (r', c')
          \<and> from_n e = string_of_nat (r * cols + c) \<and> to_n e = string_of_nat (r' * cols + c')
          \<and> (\<exists>e' \<in> set es. from_n e' = to_n e \<and> to_n e' = from_n e \<and> weight e' = weight e)"
      using rc by blast
  qed
  have exactly: "\<forall>r < rows. \<forall>c < cols. \<forall>r' < rows. \<forall>c' < cols. lattice_adjacent (r, c) (r', c') \<longrightarrow>
          (\<exists>e. filter (\<lambda>e. from_n e = string_of_nat (r * cols + c)
                           \<and> to_n e = string_of_nat (r' * cols + c')) es = [e]
             \<and> weight e = haversine (ns ! (r * cols + c)) (ns ! (r' * cols + c')))"
  proof (intro allI impI)
    fix r c r' c'
    assume rc: "r < rows" "c < cols" "r' < rows" "c' < cols" "lattice_adjacent (r, c) (r', c')"
    define P where "P = (\<lambda>e :: edge. from_n e = string_of_nat (r * cols + c)
                           \<and> to_n e = string_of_nat (r' * cols + c'))"
    have P: "P (grid_edge (ns ! idx cols r0 c0) (ns ! j)) = (r0 = r \<and> c0 = c \<and> j = idx cols r' c')"
      if "r0 < rows" "c0 < cols" "j \<in> set (neighbors rows cols r0 c0)" for r0 c0 j
    proof -
      from neighbors_lattice [OF that] obtain r1 c1 where j: "r1 < rows" "c1 < cols" "j = idx cols r1 c1"
        by blast
      have f: "from_n (grid_edge (ns ! idx cols r0 c0) (ns ! j)) = string_of_nat (idx cols r0 c0)"
        using nth [OF that(1,2)] by (simp add: grid_edge_def grid_node_def idx_def)
      have t: "to_n (grid_edge (ns ! idx cols r0 c0) (ns ! j)) = string_of_nat j"
        using nth [OF j(1,2)] j(3) by (simp add: grid_edge_def grid_node_def idx_def)
      have "(string_of_nat (idx cols r0 c0) = string_of_nat (idx cols r c)) = (r0 = r \<and> c0 = c)"
        using idx_eq_iff [OF that(2) rc(2), of r0 r] string_of_nat_inj by blast
      moreover have "(string_of_nat j = string_of_nat (idx cols r' c')) = (j = idx cols r' c')"
        using string_of_nat_inj by blast
      ultimately show ?thesis
        unfolding P_def f t by (simp add: idx_def)
    qed
    from filter_cells [of r rows c cols P ns "idx cols r' c'", OF rc(1,2) P]
    have "filter P es = map (\<lambda>j. grid_edge (ns ! idx cols r c) (ns ! j))
                          (filter (\<lambda>j. j = idx cols r' c') (neighbors rows cols r c))"
      unfolding es_def by simp
    then have "filter P es = [grid_edge (ns ! idx cols r c) (ns ! idx cols r' c')]"
      by (simp add: neighbors_filter [OF rc])
    then show "\<exists>e. filter (\<lambda>e. from_n e = string_of_nat (r * cols + c)
                           \<and> to_n e = string_of_nat (r' * cols + c')) es = [e]
             \<and> weight e = haversine (ns ! (r * cols + c)) (ns ! (r' * cols + c'))"
      unfolding P_def by (simp add: grid_edge_def idx_def)
  qed
  show ?thesis
    unfolding g using len nodes_at count paved pairs exactly by simp
qed

theorem buildGridGraph_shape_witness:
  "\<exists>g. buildGridGraph \<lparr>lat = 30, lng = 76\<rparr> 2 3 0.002 = Inr g
     \<and> length (nodes g) = 6 \<and> length (edges g) = 14
     \<and> map (\<lambda>e. (from_n e, to_n e)) (edges g)
         = [(''0'', ''3''), (''0'', ''1''), (''1'', ''4''), (''1'', ''0''), (''1'', ''2''),
            (''2'', ''5''), (''2'', ''1''), (''3'', ''0''), (''3'', ''4''), (''4'', ''1''),
            (''4'', ''3''), (''4'', ''5''), (''5'', ''2''), (''5'', ''4'')]"
proof -
  from buildGridGraph_shape [of 2 3 "\<lparr>lat = 30, lng = 76\<rparr>" "0.002"]
  obtain g where g: "buildGridGraph \<lparr>lat = 30, lng = 76\<rparr> 2 3 0.002 = Inr g"
    "length (nodes g) = 2 * 3" "length (edges g) = 2 * (2 * (3 - 1) + 3 * (2 - 1))"
    by force
  have up: "[0..<2] = [0, 1]" "[0..<3] = [0, 1, 2]"
    by (simp_all add: upt_rec)
  have "\<exists>g'. buildGridGraph \<lparr>lat = 30, lng = 76\<rparr> 2 3 0.002 = Inr g'
      \<and> map (\<lambda>e. (from_n e, to_n e)) (edges g')
         = [(''0'', ''3''), (''0'', ''1''), (''1'', ''4''), (''1'', ''0''), (''1'', ''2''),
            (''2'', ''5''), (''2'', ''1''), (''3'', ''0''), (''3'', ''4''), (''4'', ''1''),
            (''4'', ''3''), (''4'', ''5''), (''5'', ''2''), (''5'', ''4'')]"
    by (simp add: buildGridGraph_def grid_nodes_def grid_edges_def up node_step_def
        neighbors_def neighbor_step_def index_opt_def idx_def Let_def string_of_nat.simps
        digit_char_def build_adjacency_def adjacency_push_def)
  with g show ?thesis by auto
qed

section \<open>Shortest paths (app.js, dijkstra)\<close>

text \<open>
  \<^verbatim>\<open>dijkstra(adjacency, start, goal, opts = {})\<close>. The adjacency object is an
  association list in the order of \<^verbatim>\<open>Object.keys\<close>; \<^verbatim>\<open>adjacency[u]\<close> is
  \<open>map_of adj u\<close>. Node ids, \<^verbatim>\<open>start\<close> and \<^verbatim>\<open>goal\<close> are strings. An option that
  is absent (\<open>None\<close>) takes its default: \<^verbatim>\<open>avoidUnpaved = false\<close>,
  \<^verbatim>\<open>unpavedFactor = 3\<close>.
\<close>

record opts =
  avoidUnpaved :: "bool option"
  unpavedFactor :: "real option"

definition avoidUnpaved_or_default :: "opts \<Rightarrow> bool" where
  "avoidUnpaved_or_default o' = (case avoidUnpaved o' of None \<Rightarrow> False | Some b \<Rightarrow> b)"

definition unpavedFactor_or_default :: "opts \<Rightarrow> real" where
  "unpavedFactor_or_default o' = (case unpavedFactor o' of None \<Rightarrow> 3 | Some f \<Rightarrow> f)"

text \<open>
  A \<^verbatim>\<open>Set\<close> is the list of its elements in insertion order: \<^verbatim>\<open>add\<close>,
  \<^verbatim>\<open>new Set(array)\<close>, \<^verbatim>\<open>delete\<close>; \<^verbatim>\<open>has\<close> is membership and
  \<^verbatim>\<open>size\<close> the length.
\<close>

definition set_add :: "'a list \<Rightarrow> 'a \<Rightarrow> 'a list" where
  "set_add xs x = (if x \<in> set xs then xs else xs @ [x])"

definition new_Set :: "'a list \<Rightarrow> 'a list" where
  "new_Set xs = foldl set_add [] xs"

definition set_delete :: "'a list \<Rightarrow> 'a \<Rightarrow> 'a list" where
  "set_delete xs x = removeAll x xs"

text \<open>
  The variables of the main loop. \<^verbatim>\<open>dist\<close> and \<^verbatim>\<open>prev\<close> are objects without a
  prototype (\<^verbatim>\<open>Object.create(null)\<close>), so a key that was never written reads as
  \<^verbatim>\<open>undefined\<close>, here \<open>None\<close>.
\<close>

record dstate =
  dist :: "string \<rightharpoonup> number"
  prev :: "string \<rightharpoonup> string"
  visited :: "string list"
  queue :: "string list"

text \<open>
  The scan for the node of the queue with the smallest tentative distance:
  \<^verbatim>\<open>for (const n of queue) if (dist[n] < best) { best = dist[n]; u = n; }\<close>,
  started at \<^verbatim>\<open>(null, Infinity)\<close>. A comparison with \<^verbatim>\<open>undefined\<close> is false.
\<close>

definition pick_step ::
  "(string \<rightharpoonup> number) \<Rightarrow> string option \<times> number \<Rightarrow> string \<Rightarrow> string option \<times> number" where
  "pick_step d acc n =
     (case d n of
        None \<Rightarrow> acc
      | Some dn \<Rightarrow> if less_number dn (snd acc) then (Some n, dn) else acc)"

definition pick :: "(string \<rightharpoonup> number) \<Rightarrow> string list \<Rightarrow> string option" where
  "pick d q = fst (foldl (pick_step d) (None, Infinity) q)"

text \<open>
  The body of the loop over \<^verbatim>\<open>adjacency[u]\<close>. When \<^verbatim>\<open>dist[u]\<close> is not a finite
  number, \<^verbatim>\<open>alt\<close> is \<^verbatim>\<open>Infinity\<close> or \<^verbatim>\<open>NaN\<close> and the comparison
  \<^verbatim>\<open>alt < dist[v]\<close> is false; it is false as well when \<^verbatim>\<open>dist[v]\<close> is
  \<^verbatim>\<open>undefined\<close>.
\<close>

definition relax_step :: "bool \<Rightarrow> real \<Rightarrow> string \<Rightarrow> dstate \<Rightarrow> adj_entry \<Rightarrow> dstate" where
  "relax_step avoid fac u st e =
     (let v = to_n e in
      if v \<in> set (visited st) then st
      else
        (let factor = (if avoid \<and> unpaved e then fac else 1) in
         case dist st u of
           Some (Fin du) \<Rightarrow>
             (let alt = du + weight e * factor in
              case dist st v of
                None \<Rightarrow> st
              | Some dv \<Rightarrow>
                  if less_number (Fin alt) dv
                  then st\<lparr>dist := (dist st)(v \<mapsto> Fin alt), prev := (prev st)(v \<mapsto> u)\<rparr>
                  else st)
         | _ \<Rightarrow> st))"

lemma pick_step_fold:
  "foldl (pick_step d) (b, best) q = (b', best') \<Longrightarrow> b' = b \<or> (\<exists>n \<in> set q. b' = Some n)"
proof (induction q arbitrary: b best)
  case Nil
  then show ?case by simp
next
  case (Cons n q)
  obtain b1 best1 where s: "pick_step d (b, best) n = (b1, best1)" by force
  then have "b1 = b \<or> b1 = Some n"
    by (auto simp: pick_step_def split: option.splits if_splits)
  moreover from Cons.prems s have "b' = b1 \<or> (\<exists>n \<in> set q. b' = Some n)"
    using Cons.IH [of b1 best1] by simp
  ultimately show ?case by auto
qed

lemma pick_in_queue: "pick d q = Some u \<Longrightarrow> u \<in> set q"
  unfolding pick_def
  using pick_step_fold [of d None Infinity q]
  by (metis option.distinct(1) option.inject prod.collapse)

lemma relax_step_queue: "queue (relax_step avoid fac u st e) = queue st"
  by (simp add: relax_step_def Let_def split: option.splits number.splits)

lemma relax_fold_queue: "queue (foldl (relax_step avoid fac u) st es) = queue st"
  by (induction es arbitrary: st) (simp_all add: relax_step_queue)

text \<open>\<^verbatim>\<open>queue.delete(u); visited.add(u);\<close>\<close>

definition extract_min :: "dstate \<Rightarrow> string \<Rightarrow> dstate" where
  "extract_min st u = st\<lparr>queue := set_delete (queue st) u, visited := set_add (visited st) u\<rparr>"

text \<open>
  The \<^verbatim>\<open>while (queue.size)\<close> loop. It ends when the queue is empty, when the scan
  finds no node (\<^verbatim>\<open>u === null\<close>), or when the extracted node is the goal. Iterating
  over \<^verbatim>\<open>adjacency[u]\<close> for a \<open>u\<close> that is not a key would be a TypeError. Each
  round removes a node from the queue, which is the termination measure.
\<close>

function dijkstra_loop :: "adjacency \<Rightarrow> string \<Rightarrow> bool \<Rightarrow> real \<Rightarrow> dstate \<Rightarrow> error + dstate" where
  "dijkstra_loop adj goal avoid fac st =
     (if queue st = [] then Inr st
      else
        (case pick (dist st) (queue st) of
           None \<Rightarrow> Inr st
         | Some u \<Rightarrow>
             (let st1 = extract_min st u in
              if u = goal then Inr st1
              else
                (case map_of adj u of
                   None \<Rightarrow> Inl TypeError
                 | Some es \<Rightarrow> dijkstra_loop adj goal avoid fac (foldl (relax_step avoid fac u) st1 es)))))"
  by pat_completeness auto
termination
proof (relation "measure (\<lambda>(adj, goal, avoid, fac, st). length (queue st))")
  show "wf (measure (\<lambda>(adj, goal, avoid, fac, st). length (queue st)))" by simp
next
  fix adj :: adjacency and goal :: string and avoid :: bool and fac :: real and st :: dstate
    and u st1 es
  assume "pick (dist st) (queue st) = Some u"
    and "st1 = extract_min st u"
  then have "u \<in> set (queue st)" and "queue st1 = removeAll u (queue st)"
    by (auto simp: extract_min_def set_delete_def dest: pick_in_queue)
  then have "length (queue st1) < length (queue st)"
    by (simp add: length_removeAll_less)
  then show "((adj, goal, avoid, fac, foldl (relax_step avoid fac u) st1 es), (adj, goal, avoid, fac, st))
              \<in> measure (\<lambda>(adj, goal, avoid, fac, st). length (queue st))"
    by (simp add: relax_fold_queue)
qed

declare dijkstra_loop.simps [simp del]

text \<open>
  Path reconstruction: \<^verbatim>\<open>while (u !== undefined) { path.unshift(u); u = prev[u]; }\<close>.
  On an arbitrary \<^verbatim>\<open>prev\<close> the loop need not end, so the walk is a partial function:
  \<open>None\<close> means that it does not return.
\<close>

partial_function (option) walk_back ::
  "(string \<rightharpoonup> string) \<Rightarrow> string option \<Rightarrow> string list \<Rightarrow> string list option" where
  "walk_back p u path = (case u of None \<Rightarrow> Some path | Some v \<Rightarrow> walk_back p (p v) (v # path))"

definition reconstruct :: "(string \<rightharpoonup> string) \<Rightarrow> string \<Rightarrow> string \<Rightarrow> string list option" where
  "reconstruct p start goal =
     (if p goal \<noteq> None \<or> goal = start then walk_back p (Some goal) [] else Some [])"

record path_result =
  distance :: "number option"
  path :: "string list"
  visitedCount :: nat

text \<open>
  The state before the loop: \<^verbatim>\<open>dist[n] = Infinity\<close> for every key, then
  \<^verbatim>\<open>dist[start] = 0\<close>; the queue is \<^verbatim>\<open>new Set(nodes)\<close>.
\<close>

definition initial_state :: "adjacency \<Rightarrow> string \<Rightarrow> dstate" where
  "initial_state adj start =
     (let ns = map fst adj in
      \<lparr>dist = (foldl (\<lambda>d n. d(n \<mapsto> Infinity)) Map.empty ns)(start \<mapsto> Fin 0),
       prev = Map.empty, visited = [], queue = new_Set ns\<rparr>)"

definition dijkstra_run :: "adjacency \<Rightarrow> string \<Rightarrow> string \<Rightarrow> opts \<Rightarrow> error + dstate" where
  "dijkstra_run adj start goal o' =
     dijkstra_loop adj goal (avoidUnpaved_or_default o') (unpavedFactor_or_default o')
       (initial_state adj start)"

text \<open>
  The result \<^verbatim>\<open>{ distance: dist[goal], path, visitedCount: visited.size }\<close>;
  \<open>distance = None\<close> is \<^verbatim>\<open>undefined\<close>. The outer \<open>option\<close> is \<open>None\<close> when the
  reconstruction loop does not return.
\<close>

definition dijkstra :: "adjacency \<Rightarrow> string \<Rightarrow> string \<Rightarrow> opts \<Rightarrow> (error + path_result) option" where
  "dijkstra adj start goal o' =
     (case dijkstra_run adj start goal o' of
        Inl err \<Rightarrow> Some (Inl err)
      | Inr st \<Rightarrow>
          (case reconstruct (prev st) start goal of
             None \<Rightarrow> None
           | Some p \<Rightarrow>
               Some (Inr \<lparr>distance = dist st goal, path = p, visitedCount = length (visited st)\<rparr>)))"

subsection \<open>The scan and the loop\<close>

lemma less_number_irrefl: "\<not> less_number a a"
  by (cases a) simp_all

lemma less_number_trans: "less_number a b \<Longrightarrow> less_number b c \<Longrightarrow> less_number a c"
  by (cases a; cases b; cases c) simp_all

lemma less_number_asym: "less_number a b \<Longrightarrow> \<not> less_number b a"
  by (cases a; cases b) simp_all

lemma less_number_below: "less_number a b \<Longrightarrow> \<not> less_number c b \<Longrightarrow> \<not> less_number c a"
  by (cases a; cases b; cases c) simp_all

lemma less_number_Fin: "less_number a b \<Longrightarrow> \<exists>x. a = Fin x"
  by (cases a) simp_all

lemma pick_scan:
  "(foldl (pick_step d) (b, best) q = (b, best)
      \<and> (\<forall>n \<in> set q. \<forall>dn. d n = Some dn \<longrightarrow> \<not> less_number dn best))
   \<or> (\<exists>n \<in> set q. \<exists>dn. foldl (pick_step d) (b, best) q = (Some n, dn) \<and> d n = Some dn
        \<and> less_number dn best
        \<and> (\<forall>m \<in> set q. \<forall>dm. d m = Some dm \<longrightarrow> \<not> less_number dm dn))"
proof (induction q arbitrary: b best)
  case Nil
  then show ?case by simp
next
  case (Cons n q)
  show ?case
  proof (cases "\<exists>dn. d n = Some dn \<and> less_number dn best")
    case True
    then obtain dn where dn: "d n = Some dn" "less_number dn best" by blast
    then have step: "pick_step d (b, best) n = (Some n, dn)"
      by (simp add: pick_step_def)
    from Cons.IH [of "Some n" dn] show ?thesis
    proof
      assume "foldl (pick_step d) (Some n, dn) q = (Some n, dn)
              \<and> (\<forall>m \<in> set q. \<forall>dm. d m = Some dm \<longrightarrow> \<not> less_number dm dn)"
      then show ?thesis
        using step dn less_number_irrefl by auto
    next
      assume "\<exists>m \<in> set q. \<exists>dm. foldl (pick_step d) (Some n, dn) q = (Some m, dm) \<and> d m = Some dm
        \<and> less_number dm dn
        \<and> (\<forall>k \<in> set q. \<forall>dk. d k = Some dk \<longrightarrow> \<not> less_number dk dm)"
      then obtain m dm where m: "m \<in> set q" "foldl (pick_step d) (Some n, dn) q = (Some m, dm)"
        "d m = Some dm" "less_number dm dn"
        "\<forall>k \<in> set q. \<forall>dk. d k = Some dk \<longrightarrow> \<not> less_number dk dm"
        by blast
      have "less_number dm best"
        using m(4) dn(2) by (rule less_number_trans)
      moreover have "\<forall>k \<in> set (n # q). \<forall>dk. d k = Some dk \<longrightarrow> \<not> less_number dk dm"
        using m(4,5) dn(1) less_number_asym by auto
      ultimately show ?thesis
        using m(1,2,3) step by auto
    qed
  next
    case False
    then have step: "pick_step d (b, best) n = (b, best)"
      by (auto simp: pick_step_def split: option.splits)
    from Cons.IH [of b best] show ?thesis
    proof
      assume "foldl (pick_step d) (b, best) q = (b, best)
              \<and> (\<forall>m \<in> set q. \<forall>dm. d m = Some dm \<longrightarrow> \<not> less_number dm best)"
      then show ?thesis
        using step False by auto
    next
      assume "\<exists>m \<in> set q. \<exists>dm. foldl (pick_step d) (b, best) q = (Some m, dm) \<and> d m = Some dm
        \<and> less_number dm best
        \<and> (\<forall>k \<in> set q. \<forall>dk. d k = Some dk \<longrightarrow> \<not> less_number dk dm)"
      then obtain m dm where m: "m \<in> set q" "foldl (pick_step d) (b, best) q = (Some m, dm)"
        "d m = Some dm" "less_number dm best"
        "\<forall>k \<in> set q. \<forall>dk. d k = Some dk \<longrightarrow> \<not> less_number dk dm"
        by blast
      have "\<forall>dn. d n = Some dn \<longrightarrow> \<not> less_number dn dm"
        using False m(4) less_number_below by blast
      then have "\<forall>k \<in> set (n # q). \<forall>dk. d k = Some dk \<longrightarrow> \<not> less_number dk dm"
        using m(5) by auto
      then show ?thesis
        using m(1,2,3,4) step by auto
    qed
  qed
qed

lemma pick_Some:
  assumes "pick d q = Some u"
  shows "u \<in> set q \<and> (\<exists>du. d u = Some (Fin du)
           \<and> (\<forall>m \<in> set q. \<forall>dm. d m = Some dm \<longrightarrow> \<not> less_number dm (Fin du)))"
proof -
  from pick_scan [of d None Infinity q] show ?thesis
  proof
    assume "foldl (pick_step d) (None, Infinity) q = (None, Infinity)
      \<and> (\<forall>n \<in> set q. \<forall>dn. d n = Some dn \<longrightarrow> \<not> less_number dn Infinity)"
    with assms show ?thesis by (simp add: pick_def)
  next
    assume "\<exists>n \<in> set q. \<exists>dn. foldl (pick_step d) (None, Infinity) q = (Some n, dn) \<and> d n = Some dn
        \<and> less_number dn Infinity
        \<and> (\<forall>m \<in> set q. \<forall>dm. d m = Some dm \<longrightarrow> \<not> less_number dm dn)"
    then obtain n dn where n: "n \<in> set q" "foldl (pick_step d) (None, Infinity) q = (Some n, dn)"
      "d n = Some dn" "less_number dn Infinity"
      "\<forall>m \<in> set q. \<forall>dm. d m = Some dm \<longrightarrow> \<not> less_number dm dn"
      by blast
    from n(2) assms have "n = u" by (simp add: pick_def)
    moreover from n(4) obtain x where "dn = Fin x" by (auto dest: less_number_Fin)
    ultimately show ?thesis using n by auto
  qed
qed

lemma pick_None:
  assumes "pick d q = None" "n \<in> set q"
  shows "d n = None \<or> d n = Some Infinity"
proof -
  from pick_scan [of d None Infinity q] show ?thesis
  proof
    assume "foldl (pick_step d) (None, Infinity) q = (None, Infinity)
      \<and> (\<forall>n \<in> set q. \<forall>dn. d n = Some dn \<longrightarrow> \<not> less_number dn Infinity)"
    then have "\<forall>dn. d n = Some dn \<longrightarrow> \<not> less_number dn Infinity"
      using assms(2) by blast
    then have "\<forall>dn. d n = Some dn \<longrightarrow> dn = Infinity"
      by (metis less_number.simps(2) number.exhaust)
    then show ?thesis
      by (cases "d n") simp_all
  next
    assume "\<exists>n \<in> set q. \<exists>dn. foldl (pick_step d) (None, Infinity) q = (Some n, dn) \<and> d n = Some dn
        \<and> less_number dn Infinity
        \<and> (\<forall>m \<in> set q. \<forall>dm. d m = Some dm \<longrightarrow> \<not> less_number dm dn)"
    with assms(1) show ?thesis by (auto simp: pick_def)
  qed
qed

lemma dijkstra_loop_rule:
  assumes "I st"
    and "\<And>s. I s \<Longrightarrow> set (queue s) \<subseteq> fst ` set adj"
    and "\<And>s u es. I s \<Longrightarrow> queue s \<noteq> [] \<Longrightarrow> pick (dist s) (queue s) = Some u \<Longrightarrow> u \<noteq> goal
                 \<Longrightarrow> map_of adj u = Some es \<Longrightarrow> I (foldl (relax_step avoid fac u) (extract_min s u) es)"
  shows "\<exists>st' s. dijkstra_loop adj goal avoid fac st = Inr st' \<and> I s
           \<and> (st' = s \<and> (queue s = [] \<or> pick (dist s) (queue s) = None)
              \<or> queue s \<noteq> [] \<and> pick (dist s) (queue s) = Some goal \<and> st' = extract_min s goal)"
  using assms
proof (induction adj goal avoid fac st rule: dijkstra_loop.induct)
  case (1 adj goal avoid fac st)
  note inv = "1.prems"(1) and keys = "1.prems"(2) and step = "1.prems"(3)
  show ?case
  proof (cases "queue st = []")
    case True
    then have "dijkstra_loop adj goal avoid fac st = Inr st"
      by (subst dijkstra_loop.simps) simp
    with True inv show ?thesis by blast
  next
    case False
    show ?thesis
    proof (cases "pick (dist st) (queue st)")
      case None
      with False have "dijkstra_loop adj goal avoid fac st = Inr st"
        by (subst dijkstra_loop.simps) simp
      with None inv show ?thesis by blast
    next
      case (Some u)
      show ?thesis
      proof (cases "u = goal")
        case True
        with False Some have "dijkstra_loop adj goal avoid fac st = Inr (extract_min st goal)"
          by (subst dijkstra_loop.simps) (simp add: Let_def)
        with False Some True inv show ?thesis by blast
      next
        case ne: False
        have "u \<in> set (queue st)"
          using Some by (rule pick_in_queue)
        with keys [OF inv] have "u \<in> fst ` set adj" by blast
        then obtain es where es: "map_of adj u = Some es"
          by (cases "map_of adj u") (simp_all add: map_of_eq_None_iff)
        have "I (foldl (relax_step avoid fac u) (extract_min st u) es)"
          using inv False Some ne es by (rule step)
        from "1.IH" [OF False Some refl ne es this keys step]
        have "\<exists>st' s. dijkstra_loop adj goal avoid fac
                   (foldl (relax_step avoid fac u) (extract_min st u) es) = Inr st' \<and> I s
           \<and> (st' = s \<and> (queue s = [] \<or> pick (dist s) (queue s) = None)
              \<or> queue s \<noteq> [] \<and> pick (dist s) (queue s) = Some goal \<and> st' = extract_min s goal)"
          by blast
        moreover have "dijkstra_loop adj goal avoid fac st
            = dijkstra_loop adj goal avoid fac (foldl (relax_step avoid fac u) (extract_min st u) es)"
          using False Some ne es by (subst dijkstra_loop.simps) (simp add: Let_def)
        ultimately show ?thesis by simp
      qed
    qed
  qed
qed

subsection \<open>Walks, the initial state and unknown nodes\<close>

text \<open>
  A walk from \<open>u\<close> to \<open>v\<close> is a list of adjacency entries, each taken from the list of the
  node the previous one leads to.
\<close>

fun is_walk :: "adjacency \<Rightarrow> string \<Rightarrow> adj_entry list \<Rightarrow> string \<Rightarrow> bool" where
  "is_walk adj u [] v = (u = v)"
| "is_walk adj u (e # p) v =
     (case map_of adj u of None \<Rightarrow> False | Some es \<Rightarrow> e \<in> set es \<and> is_walk adj (to_n e) p v)"

lemma is_walk_append:
  "is_walk adj u (p @ q) v = (\<exists>w. is_walk adj u p w \<and> is_walk adj w q v)"
  by (induction p arbitrary: u) (auto split: option.splits)

lemma is_walk_snoc:
  "is_walk adj a p u \<Longrightarrow> map_of adj u = Some es \<Longrightarrow> e \<in> set es \<Longrightarrow> is_walk adj a (p @ [e]) (to_n e)"
  by (auto simp: is_walk_append)

lemma init_dist_fold:
  "foldl (\<lambda>d n. d(n \<mapsto> Infinity)) d0 ns = (\<lambda>n. if n \<in> set ns then Some Infinity else d0 n)"
  by (induction ns arbitrary: d0) auto

lemma set_add_set: "set (set_add xs x) = insert x (set xs)"
  by (auto simp: set_add_def)

lemma new_Set_fold: "set (foldl set_add acc xs) = set acc \<union> set xs"
  by (induction xs arbitrary: acc) (auto simp: set_add_set)

lemma new_Set_set: "set (new_Set xs) = set xs"
  by (simp add: new_Set_def new_Set_fold)

lemma initial_state_simps:
  "dist (initial_state adj start)
     = (\<lambda>n. if n = start then Some (Fin 0) else if n \<in> fst ` set adj then Some Infinity else None)"
  "prev (initial_state adj start) = Map.empty"
  "visited (initial_state adj start) = []"
  "set (queue (initial_state adj start)) = fst ` set adj"
  by (auto simp: initial_state_def Let_def init_dist_fold new_Set_set)

lemma extract_min_simps:
  "dist (extract_min st u) = dist st"
  "prev (extract_min st u) = prev st"
  "set (visited (extract_min st u)) = insert u (set (visited st))"
  "set (queue (extract_min st u)) = set (queue st) - {u}"
  by (auto simp: extract_min_def set_add_set set_delete_def)

lemma relax_step_cases:
  "relax_step avoid fac u st e = st
   \<or> (\<exists>du dv. to_n e \<notin> set (visited st) \<and> dist st u = Some (Fin du) \<and> dist st (to_n e) = Some dv
        \<and> less_number (Fin (du + weight e * (if avoid \<and> unpaved e then fac else 1))) dv
        \<and> relax_step avoid fac u st e
            = st\<lparr>dist := (dist st)(to_n e \<mapsto> Fin (du + weight e * (if avoid \<and> unpaved e then fac else 1))),
                 prev := (prev st)(to_n e \<mapsto> u)\<rparr>)"
  by (simp add: relax_step_def Let_def split: option.splits number.splits)

lemma relax_fold_rule:
  assumes "P st" and "\<And>s e. P s \<Longrightarrow> e \<in> set es \<Longrightarrow> P (relax_step avoid fac u s e)"
  shows "P (foldl (relax_step avoid fac u) st es)"
  using assms by (induction es arbitrary: st) simp_all

lemma pick_all_infinite:
  assumes "\<forall>n \<in> set q. d n = None \<or> d n = Some Infinity"
  shows "pick d q = None"
proof (cases "pick d q")
  case None
  then show ?thesis .
next
  case (Some u)
  from pick_Some [OF this] assms show ?thesis by auto
qed

lemma walk_back_empty: "walk_back Map.empty (Some v) acc = Some (v # acc)"
  by (simp add: walk_back.simps)

lemma dijkstra_unknown_start:
  assumes "start \<notin> fst ` set adj"
  shows "dijkstra adj start goal o' =
     Some (Inr \<lparr>distance = (if goal = start then Some (Fin 0)
                             else if goal \<in> fst ` set adj then Some Infinity else None),
                path = (if goal = start then [start] else []), visitedCount = 0\<rparr>)"
proof -
  let ?st = "initial_state adj start"
  have "\<forall>n \<in> set (queue ?st). dist ?st n = None \<or> dist ?st n = Some Infinity"
    using assms by (auto simp: initial_state_simps)
  then have "pick (dist ?st) (queue ?st) = None"
    by (rule pick_all_infinite)
  then have "dijkstra_loop adj goal (avoidUnpaved_or_default o') (unpavedFactor_or_default o') ?st = Inr ?st"
    by (subst dijkstra_loop.simps) simp
  then show ?thesis
    by (simp add: dijkstra_def dijkstra_run_def reconstruct_def initial_state_simps walk_back_empty)
qed

lemma dijkstra_unknown_goal:
  assumes "goal \<notin> fst ` set adj" "goal \<noteq> start"
  shows "\<exists>n. dijkstra adj start goal o' = Some (Inr \<lparr>distance = None, path = [], visitedCount = n\<rparr>)"
proof -
  define I where "I s = (set (queue s) \<subseteq> fst ` set adj \<and> dist s goal = None \<and> prev s goal = None)" for s :: dstate
  have init: "I (initial_state adj start)"
    using assms by (simp add: I_def initial_state_simps)
  have keys: "\<And>s. I s \<Longrightarrow> set (queue s) \<subseteq> fst ` set adj"
    by (simp add: I_def)
  have step: "I (foldl (relax_step avoid fac u) (extract_min s u) es)" if "I s" for s u es avoid fac
  proof (rule relax_fold_rule)
    show "I (extract_min s u)"
      using that by (auto simp: I_def extract_min_simps)
  next
    fix s' e assume "I s'"
    then show "I (relax_step avoid fac u s' e)"
      using relax_step_cases [of avoid fac u s' e] by (auto simp: I_def)
  qed
  from dijkstra_loop_rule [of I, OF init keys step]
  obtain st' s where r: "dijkstra_run adj start goal o' = Inr st'" "I s"
    "st' = s \<or> st' = extract_min s goal"
    unfolding dijkstra_run_def by blast
  then have "dist st' goal = None" "prev st' goal = None"
    by (auto simp: I_def extract_min_simps)
  then show ?thesis
    using r(1) assms(2) by (simp add: dijkstra_def reconstruct_def)
qed

text \<open>
  C2, amended: for every adjacency, start, goal and options, if start or goal is not a key
  of the adjacency then dijkstra raises no error: it returns a result. Its path is empty
  and its distance is \<^verbatim>\<open>Infinity\<close> when the goal is a key and \<^verbatim>\<open>undefined\<close> when it
  is not; only when goal and start are the same unknown id the path is \<open>[start]\<close> and the
  distance 0.
\<close>

theorem dijkstra_unknown_node:
  assumes "start \<notin> fst ` set adj \<or> goal \<notin> fst ` set adj"
  shows "\<exists>n. dijkstra adj start goal o' =
     Some (Inr \<lparr>distance = (if goal = start then Some (Fin 0)
                             else if goal \<in> fst ` set adj then Some Infinity else None),
                path = (if goal = start then [start] else []), visitedCount = n\<rparr>)"
proof (cases "start \<in> fst ` set adj")
  case False
  then show ?thesis
    using dijkstra_unknown_start [of start adj goal o'] by blast
next
  case True
  with assms have "goal \<notin> fst ` set adj" "goal \<noteq> start" by auto
  then show ?thesis
    using dijkstra_unknown_goal [of goal adj start o'] by simp
qed

text \<open>
  C2, as the specification states it: when start or goal is not a node of the model,
  dijkstra fails with an UnknownNode error rather than returning a result. The function
  checks neither id; with the unknown goal \<open>zz\<close> it visits both nodes and returns an
  empty path with distance \<^verbatim>\<open>undefined\<close>.
\<close>

theorem dijkstra_unknown_node_counterexample:
  "dijkstra [(''a'', [\<lparr>to_n = ''b'', weight = 5, unpaved = False, surface = ''paved''\<rparr>]), (''b'', [])]
      ''a'' ''zz'' \<lparr>avoidUnpaved = Some False, unpavedFactor = Some 3\<rparr>
     = Some (Inr \<lparr>distance = None, path = [], visitedCount = 2\<rparr>)"
  by (simp add: dijkstra_def dijkstra_run_def initial_state_def dijkstra_loop.simps
      pick_def pick_step_def relax_step_def new_Set_def set_add_def set_delete_def extract_min_def
      avoidUnpaved_or_default_def unpavedFactor_or_default_def reconstruct_def Let_def)

theorem dijkstra_unknown_node_witness:
  "\<exists>n. dijkstra [(''a'', [])] ''zz'' ''a'' \<lparr>avoidUnpaved = None, unpavedFactor = None\<rparr>
     = Some (Inr \<lparr>distance = Some Infinity, path = [], visitedCount = n\<rparr>)"
  using dijkstra_unknown_node [of "''zz''" "[(''a'', [])]" "''a''" "\<lparr>avoidUnpaved = None, unpavedFactor = None\<rparr>"]
  by simp

subsection \<open>An unreachable goal\<close>

text \<open>
  An invariant of the loop that needs no assumption on the weights: a node other than
  start that has no predecessor still has distance \<^verbatim>\<open>Infinity\<close>, and a node with a
  predecessor or a finite distance is the end of a walk from start.
\<close>

definition reach_inv :: "adjacency \<Rightarrow> string \<Rightarrow> dstate \<Rightarrow> bool" where
  "reach_inv adj start s =
     (set (queue s) \<subseteq> fst ` set adj
      \<and> (\<forall>v. v \<noteq> start \<and> v \<in> fst ` set adj \<and> prev s v = None \<longrightarrow> dist s v = Some Infinity)
      \<and> (\<forall>v. prev s v \<noteq> None \<longrightarrow> (\<exists>p. is_walk adj start p v))
      \<and> (\<forall>v d. dist s v = Some (Fin d) \<longrightarrow> (\<exists>p. is_walk adj start p v)))"

lemma reach_inv_initial: "reach_inv adj start (initial_state adj start)"
proof -
  have "is_walk adj start [] start" by simp
  then have "\<exists>p. is_walk adj start p start" by blast
  then show ?thesis
    by (simp add: reach_inv_def initial_state_simps)
qed

lemma reach_inv_extract: "reach_inv adj start s \<Longrightarrow> reach_inv adj start (extract_min s u)"
  by (auto simp: reach_inv_def extract_min_simps)

lemma reach_inv_relax:
  assumes "reach_inv adj start s" "map_of adj u = Some es" "e \<in> set es"
  shows "reach_inv adj start (relax_step avoid fac u s e)"
proof -
  from relax_step_cases [of avoid fac u s e] show ?thesis
  proof
    assume "relax_step avoid fac u s e = s"
    with assms(1) show ?thesis by simp
  next
    assume "\<exists>du dv. to_n e \<notin> set (visited s) \<and> dist s u = Some (Fin du) \<and> dist s (to_n e) = Some dv
        \<and> less_number (Fin (du + weight e * (if avoid \<and> unpaved e then fac else 1))) dv
        \<and> relax_step avoid fac u s e
            = s\<lparr>dist := (dist s)(to_n e \<mapsto> Fin (du + weight e * (if avoid \<and> unpaved e then fac else 1))),
                 prev := (prev s)(to_n e \<mapsto> u)\<rparr>"
    then obtain du alt where u: "dist s u = Some (Fin du)"
      and eq: "relax_step avoid fac u s e
            = s\<lparr>dist := (dist s)(to_n e \<mapsto> Fin alt), prev := (prev s)(to_n e \<mapsto> u)\<rparr>"
      by blast
    from assms(1) u obtain p where "is_walk adj start p u"
      unfolding reach_inv_def by blast
    then have "is_walk adj start (p @ [e]) (to_n e)"
      using assms(2,3) by (rule is_walk_snoc)
    then have w: "\<exists>p. is_walk adj start p (to_n e)" by blast
    show ?thesis
      unfolding eq using assms(1) w by (auto simp: reach_inv_def)
  qed
qed

text \<open>
  C5. For every adjacency, start and goal with goal different from start, the main loop of
  dijkstra ends normally, and (1) if no walk leads from start to goal then goal was never
  assigned a predecessor, and (2) whenever goal was never assigned a predecessor, dijkstra
  returns the empty path, and as distance \<^verbatim>\<open>Infinity\<close> (\<^verbatim>\<open>undefined\<close> if goal is not
  even a key of the adjacency): never a finite number.
\<close>

theorem dijkstra_unreachable:
  assumes "goal \<noteq> start"
  shows "\<exists>st. dijkstra_run adj start goal o' = Inr st
     \<and> ((\<nexists>p. is_walk adj start p goal) \<longrightarrow> prev st goal = None)
     \<and> (prev st goal = None \<longrightarrow>
          dijkstra adj start goal o' =
            Some (Inr \<lparr>distance = (if goal \<in> fst ` set adj then Some Infinity else None),
                       path = [], visitedCount = length (visited st)\<rparr>))"
proof -
  have keys: "\<And>s. reach_inv adj start s \<Longrightarrow> set (queue s) \<subseteq> fst ` set adj"
    by (simp add: reach_inv_def)
  have step: "reach_inv adj start (foldl (relax_step avoid fac u) (extract_min s u) es)"
    if "reach_inv adj start s" "map_of adj u = Some es" for s u es avoid fac
    using reach_inv_extract [OF that(1)] reach_inv_relax [OF _ that(2)]
    by (rule relax_fold_rule)
  from dijkstra_loop_rule [of "reach_inv adj start", OF reach_inv_initial keys step]
  obtain st s where r: "dijkstra_run adj start goal o' = Inr st" "reach_inv adj start s"
    "st = s \<or> st = extract_min s goal"
    unfolding dijkstra_run_def by blast
  then have same: "dist st = dist s" "prev st = prev s"
    by (auto simp: extract_min_simps)
  have none: "goal \<notin> fst ` set adj \<Longrightarrow> dist st goal = None"
  proof -
    assume g: "goal \<notin> fst ` set adj"
    from dijkstra_unknown_goal [OF g assms, of o'] r(1) show ?thesis
      by (auto simp: dijkstra_def split: option.splits)
  qed
  have a: "(\<nexists>p. is_walk adj start p goal) \<longrightarrow> prev st goal = None"
    using r(2) unfolding same reach_inv_def by blast
  have b: "dijkstra adj start goal o' =
            Some (Inr \<lparr>distance = (if goal \<in> fst ` set adj then Some Infinity else None),
                       path = [], visitedCount = length (visited st)\<rparr>)"
    if p: "prev st goal = None"
  proof -
    have "dist st goal = (if goal \<in> fst ` set adj then Some Infinity else None)"
      using r(2) p assms none unfolding same reach_inv_def by auto
    then show ?thesis
      using r(1) p assms by (simp add: dijkstra_def reconstruct_def)
  qed
  show ?thesis
  proof (intro exI [of _ st] conjI)
    show "dijkstra_run adj start goal o' = Inr st" by (rule r(1))
    show "(\<nexists>p. is_walk adj start p goal) \<longrightarrow> prev st goal = None" by (rule a)
    show "prev st goal = None \<longrightarrow> dijkstra adj start goal o' =
            Some (Inr \<lparr>distance = (if goal \<in> fst ` set adj then Some Infinity else None),
                       path = [], visitedCount = length (visited st)\<rparr>)"
      using b by (rule impI)
  qed
qed

theorem dijkstra_unreachable_witness:
  "dijkstra [(''a'', [\<lparr>to_n = ''b'', weight = 5, unpaved = False, surface = ''paved''\<rparr>]),
             (''b'', []), (''d'', [])]
      ''a'' ''d'' \<lparr>avoidUnpaved = Some False, unpavedFactor = Some 3\<rparr>
     = Some (Inr \<lparr>distance = Some Infinity, path = [], visitedCount = 2\<rparr>)"
proof -
  let ?adj = "[(''a'', [\<lparr>to_n = ''b'', weight = 5, unpaved = False, surface = ''paved''\<rparr>]),
             (''b'', []), (''d'', [])]"
  let ?o = "\<lparr>avoidUnpaved = Some False, unpavedFactor = Some 3\<rparr>"
  have ne: "''d'' \<noteq> ''a''" by simp
  from dijkstra_unreachable [OF ne, of ?adj ?o]
  obtain st where st: "dijkstra_run ?adj ''a'' ''d'' ?o = Inr st
     \<and> ((\<nexists>p. is_walk ?adj ''a'' p ''d'') \<longrightarrow> prev st ''d'' = None)
     \<and> (prev st ''d'' = None \<longrightarrow>
          dijkstra ?adj ''a'' ''d'' ?o =
            Some (Inr \<lparr>distance = (if ''d'' \<in> fst ` set ?adj then Some Infinity else None),
                       path = [], visitedCount = length (visited st)\<rparr>))" ..
  then have run: "dijkstra_run ?adj ''a'' ''d'' ?o = Inr st"
    by (rule conjunct1)
  from st have res: "prev st ''d'' = None \<longrightarrow>
          dijkstra ?adj ''a'' ''d'' ?o =
            Some (Inr \<lparr>distance = (if ''d'' \<in> fst ` set ?adj then Some Infinity else None),
                       path = [], visitedCount = length (visited st)\<rparr>)"
    by (elim conjE)
  from run have "prev st ''d'' = None \<and> length (visited st) = 2"
    by (auto simp: dijkstra_run_def initial_state_def dijkstra_loop.simps
      pick_def pick_step_def relax_step_def new_Set_def set_add_def set_delete_def extract_min_def
      avoidUnpaved_or_default_def unpavedFactor_or_default_def Let_def)
  with res show ?thesis by simp
qed

subsection \<open>Optimality\<close>

text \<open>
  The cost the relaxation adds for an edge, \<^verbatim>\<open>w * factor\<close>, and the cost of a walk.
\<close>

definition cost :: "bool \<Rightarrow> real \<Rightarrow> adj_entry \<Rightarrow> real" where
  "cost avoid fac e = weight e * (if avoid \<and> unpaved e then fac else 1)"

definition walk_cost :: "bool \<Rightarrow> real \<Rightarrow> adj_entry list \<Rightarrow> real" where
  "walk_cost avoid fac p = sum_list (map (cost avoid fac) p)"

definition nonneg_costs :: "adjacency \<Rightarrow> bool \<Rightarrow> real \<Rightarrow> bool" where
  "nonneg_costs adj avoid fac =
     (\<forall>u es e. map_of adj u = Some es \<and> e \<in> set es \<longrightarrow> 0 \<le> cost avoid fac e)"

text \<open>
  The walk that the \<^verbatim>\<open>prev\<close> links describe: from start, through visited nodes, each
  node being the predecessor of the next.
\<close>

inductive tree_path :: "adjacency \<Rightarrow> string \<Rightarrow> dstate \<Rightarrow> string \<Rightarrow> adj_entry list \<Rightarrow> bool"
  for adj :: adjacency and start :: string and s :: dstate where
  root: "tree_path adj start s start []"
| edge: "tree_path adj start s u p \<Longrightarrow> u \<in> set (visited s) \<Longrightarrow> prev s (to_n e) = Some u
         \<Longrightarrow> map_of adj u = Some es \<Longrightarrow> e \<in> set es
         \<Longrightarrow> tree_path adj start s (to_n e) (p @ [e])"

lemma walk_cost_simps:
  "walk_cost avoid fac [] = 0"
  "walk_cost avoid fac (e # p) = cost avoid fac e + walk_cost avoid fac p"
  "walk_cost avoid fac (p @ q) = walk_cost avoid fac p + walk_cost avoid fac q"
  by (simp_all add: walk_cost_def)

lemma walk_cost_nonneg:
  "nonneg_costs adj avoid fac \<Longrightarrow> is_walk adj a q b \<Longrightarrow> 0 \<le> walk_cost avoid fac q"
proof (induction q arbitrary: a)
  case Nil
  then show ?case by (simp add: walk_cost_simps)
next
  case (Cons e q)
  from Cons.prems(2) obtain es where es: "map_of adj a = Some es" "e \<in> set es"
    "is_walk adj (to_n e) q b"
    by (auto split: option.splits)
  from Cons.prems(1) es(1,2) have "0 \<le> cost avoid fac e"
    unfolding nonneg_costs_def by blast
  moreover have "0 \<le> walk_cost avoid fac q"
    using Cons.IH [OF Cons.prems(1) es(3)] .
  ultimately show ?case by (simp add: walk_cost_simps)
qed

lemma is_walk_source_key:
  "is_walk adj a q b \<Longrightarrow> b \<in> fst ` set adj \<Longrightarrow> a \<in> fst ` set adj"
  by (cases q) (auto split: option.splits dest: map_of_SomeD intro: rev_image_eqI)

lemma walk_crossing:
  assumes "is_walk adj a q b" "a \<in> V" "b \<notin> V"
  shows "\<exists>q1 e q2 x es. q = q1 @ e # q2 \<and> is_walk adj a q1 x \<and> x \<in> V
           \<and> map_of adj x = Some es \<and> e \<in> set es \<and> to_n e \<notin> V \<and> is_walk adj (to_n e) q2 b"
  using assms
proof (induction q arbitrary: a)
  case Nil
  then show ?case by simp
next
  case (Cons e q)
  from Cons.prems(1) obtain es where es: "map_of adj a = Some es" "e \<in> set es"
    "is_walk adj (to_n e) q b"
    by (auto split: option.splits)
  show ?case
  proof (cases "to_n e \<in> V")
    case False
    have "e # q = [] @ e # q \<and> is_walk adj a [] a \<and> a \<in> V
           \<and> map_of adj a = Some es \<and> e \<in> set es \<and> to_n e \<notin> V \<and> is_walk adj (to_n e) q b"
      using es False Cons.prems(2) by simp
    then show ?thesis by blast
  next
    case True
    from Cons.IH [OF es(3) True Cons.prems(3)]
    obtain q1 e' q2 x es' where c: "q = q1 @ e' # q2" "is_walk adj (to_n e) q1 x" "x \<in> V"
      "map_of adj x = Some es'" "e' \<in> set es'" "to_n e' \<notin> V" "is_walk adj (to_n e') q2 b"
      by blast
    have "e # q = (e # q1) @ e' # q2 \<and> is_walk adj a (e # q1) x \<and> x \<in> V
           \<and> map_of adj x = Some es' \<and> e' \<in> set es' \<and> to_n e' \<notin> V \<and> is_walk adj (to_n e') q2 b"
      using c es(1,2) by simp
    then show ?thesis by blast
  qed
qed

lemma tree_path_is_walk: "tree_path adj start s v p \<Longrightarrow> is_walk adj start p v"
  by (induction rule: tree_path.induct) (auto intro: is_walk_snoc)

lemma tree_path_walk_back:
  assumes "tree_path adj start s v p" "prev s start = None"
  shows "walk_back (prev s) (Some v) acc = Some (start # map to_n p @ acc)"
  using assms(1)
proof (induction arbitrary: acc rule: tree_path.induct)
  case root
  show ?case
    using assms(2) by (subst walk_back.simps, simp, subst walk_back.simps, simp)
next
  case (edge u p e es)
  have "walk_back (prev s) (Some (to_n e)) acc = walk_back (prev s) (Some u) (to_n e # acc)"
    using edge.hyps(3) by (subst walk_back.simps) simp
  then show ?case
    by (simp add: edge.IH)
qed

lemma tree_path_nonempty:
  "tree_path adj start s v p \<Longrightarrow> v \<noteq> start \<Longrightarrow> prev s v \<noteq> None"
  by (induction rule: tree_path.induct) auto

lemma tree_path_mono:
  assumes "tree_path adj start s v p"
    and "set (visited s) \<subseteq> set (visited t)"
    and "\<forall>x \<in> set (visited s). prev t x = prev s x"
    and "prev t v = prev s v"
  shows "tree_path adj start t v p"
  using assms(1,4)
proof (induction rule: tree_path.induct)
  case root
  show ?case by (rule tree_path.root)
next
  case (edge u p e es)
  have "prev t u = prev s u" using edge.hyps(2) assms(3) by blast
  then have "tree_path adj start t u p" by (rule edge.IH)
  moreover have "u \<in> set (visited t)" using edge.hyps(2) assms(2) by blast
  moreover have "prev t (to_n e) = Some u" using edge.hyps(3) edge.prems by simp
  ultimately show ?case
    using edge.hyps(4,5) by (rule tree_path.edge)
qed

lemma relax_step_visited: "visited (relax_step avoid fac u t e) = visited t"
  by (simp add: relax_step_def Let_def split: option.splits number.splits)

lemma relax_step_same:
  "v \<in> set (visited t) \<Longrightarrow> dist (relax_step avoid fac u t e) v = dist t v
     \<and> prev (relax_step avoid fac u t e) v = prev t v"
  using relax_step_cases [of avoid fac u t e] by auto

lemma relax_step_dom: "(dist (relax_step avoid fac u t e) v = None) = (dist t v = None)"
  using relax_step_cases [of avoid fac u t e] by (auto split: if_splits)

lemma relax_step_decreasing:
  assumes "dist t v = Some (Fin a)"
  shows "\<exists>a'. dist (relax_step avoid fac u t e) v = Some (Fin a') \<and> a' \<le> a"
  using relax_step_cases [of avoid fac u t e] assms by auto

lemma relax_step_done:
  assumes "dist t u = Some (Fin du)" "to_n e \<notin> set (visited t)" "dist t (to_n e) \<noteq> None"
  shows "\<exists>dv. dist (relax_step avoid fac u t e) (to_n e) = Some (Fin dv)
           \<and> dv \<le> du + cost avoid fac e"
proof -
  from assms(3) obtain dv0 where dv0: "dist t (to_n e) = Some dv0" by blast
  show ?thesis
  proof (cases "less_number (Fin (du + cost avoid fac e)) dv0")
    case True
    then show ?thesis
      using assms(1,2) dv0 by (simp add: relax_step_def Let_def cost_def)
  next
    case False
    then obtain x where "dv0 = Fin x" "x \<le> du + cost avoid fac e"
      by (cases dv0) auto
    with False show ?thesis
      using assms(1,2) dv0 by (simp add: relax_step_def Let_def cost_def)
  qed
qed

lemma relax_fold_decreasing:
  assumes "dist t v = Some (Fin a)"
  shows "\<exists>a'. dist (foldl (relax_step avoid fac u) t es) v = Some (Fin a') \<and> a' \<le> a"
  using assms
proof (induction es arbitrary: t a)
  case Nil
  then show ?case by simp
next
  case (Cons e es)
  from relax_step_decreasing [OF Cons.prems, of avoid fac u e]
  obtain a1 where a1: "dist (relax_step avoid fac u t e) v = Some (Fin a1)" "a1 \<le> a" by blast
  from Cons.IH [OF a1(1)] obtain a' where
    "dist (foldl (relax_step avoid fac u) (relax_step avoid fac u t e) es) v = Some (Fin a')" "a' \<le> a1"
    by blast
  with a1(2) show ?case by auto
qed

lemma relax_fold_relaxed:
  assumes "u \<in> set (visited t)" "dist t u = Some (Fin du)"
    and "e \<in> set es" "to_n e \<notin> set (visited t)" "dist t (to_n e) \<noteq> None"
  shows "\<exists>dv. dist (foldl (relax_step avoid fac u) t es) (to_n e) = Some (Fin dv)
           \<and> dv \<le> du + cost avoid fac e"
  using assms
proof (induction es arbitrary: t)
  case Nil
  then show ?case by simp
next
  case (Cons e' es)
  let ?t1 = "relax_step avoid fac u t e'"
  have u1: "u \<in> set (visited ?t1)" "dist ?t1 u = Some (Fin du)"
    using Cons.prems(1,2) by (simp_all add: relax_step_visited relax_step_same)
  show ?case
  proof (cases "e = e'")
    case True
    from relax_step_done [OF Cons.prems(2,4,5), of avoid fac]
    obtain dv where "dist ?t1 (to_n e) = Some (Fin dv)" "dv \<le> du + cost avoid fac e"
      using True by blast
    moreover from relax_fold_decreasing [OF this(1), of avoid fac u es]
    obtain dv' where "dist (foldl (relax_step avoid fac u) ?t1 es) (to_n e) = Some (Fin dv')"
      "dv' \<le> dv" by blast
    ultimately show ?thesis by auto
  next
    case False
    with Cons.prems(3) have "e \<in> set es" by simp
    moreover have "to_n e \<notin> set (visited ?t1)" "dist ?t1 (to_n e) \<noteq> None"
      using Cons.prems(4,5) by (simp_all add: relax_step_visited relax_step_dom)
    ultimately show ?thesis
      using Cons.IH [OF u1] by simp
  qed
qed

text \<open>
  The invariant of the main loop, at the head of each round: queue and visited set
  partition the keys; \<^verbatim>\<open>dist\<close> is defined exactly on the keys; before the first
  extraction only start has a finite distance; start has no predecessor; the goal is not
  visited; every finite distance is the cost of the walk that the \<^verbatim>\<open>prev\<close> links give;
  the distance of a visited node is minimal over all walks; and every edge from a visited
  node to a queued node has been relaxed.
\<close>

definition opt_inv :: "adjacency \<Rightarrow> string \<Rightarrow> string \<Rightarrow> bool \<Rightarrow> real \<Rightarrow> dstate \<Rightarrow> bool" where
  "opt_inv adj start goal avoid fac s =
     (set (queue s) \<union> set (visited s) = fst ` set adj
      \<and> set (queue s) \<inter> set (visited s) = {}
      \<and> (\<forall>v. (dist s v = None) = (v \<notin> fst ` set adj))
      \<and> (start \<in> set (queue s) \<longrightarrow>
            (\<forall>v \<in> fst ` set adj. dist s v = (if v = start then Some (Fin 0) else Some Infinity)))
      \<and> prev s start = None
      \<and> goal \<notin> set (visited s)
      \<and> (\<forall>v d. dist s v = Some (Fin d) \<longrightarrow>
            (\<exists>p. tree_path adj start s v p \<and> walk_cost avoid fac p = d))
      \<and> (\<forall>u \<in> set (visited s). \<exists>d. dist s u = Some (Fin d)
            \<and> (\<forall>q. is_walk adj start q u \<longrightarrow> d \<le> walk_cost avoid fac q))
      \<and> (\<forall>u \<in> set (visited s). \<forall>es e.
            map_of adj u = Some es \<and> e \<in> set es \<and> to_n e \<in> set (queue s) \<longrightarrow>
            (\<exists>du dv. dist s u = Some (Fin du) \<and> dist s (to_n e) = Some (Fin dv)
               \<and> dv \<le> du + cost avoid fac e)))"

lemma opt_inv_keys:
  "opt_inv adj start goal avoid fac s \<Longrightarrow> set (queue s) \<union> set (visited s) = fst ` set adj"
  by (simp add: opt_inv_def)

lemma opt_inv_disjoint:
  "opt_inv adj start goal avoid fac s \<Longrightarrow> set (queue s) \<inter> set (visited s) = {}"
  by (simp add: opt_inv_def)

lemma opt_inv_dom:
  "opt_inv adj start goal avoid fac s \<Longrightarrow> (dist s v = None) = (v \<notin> fst ` set adj)"
  by (simp add: opt_inv_def)

lemma opt_inv_start_queued:
  assumes "opt_inv adj start goal avoid fac s" "start \<in> set (queue s)" "v \<in> fst ` set adj"
  shows "dist s v = (if v = start then Some (Fin 0) else Some Infinity)"
proof -
  from assms(1) have "start \<in> set (queue s) \<longrightarrow>
    (\<forall>v \<in> fst ` set adj. dist s v = (if v = start then Some (Fin 0) else Some Infinity))"
    unfolding opt_inv_def by (elim conjE)
  with assms(2,3) show ?thesis by blast
qed

lemma opt_inv_prev_start: "opt_inv adj start goal avoid fac s \<Longrightarrow> prev s start = None"
  by (simp add: opt_inv_def)

lemma opt_inv_goal: "opt_inv adj start goal avoid fac s \<Longrightarrow> goal \<notin> set (visited s)"
  by (simp add: opt_inv_def)

lemma opt_inv_tree:
  assumes "opt_inv adj start goal avoid fac s" "dist s v = Some (Fin d)"
  shows "\<exists>p. tree_path adj start s v p \<and> walk_cost avoid fac p = d"
proof -
  from assms(1) have "\<forall>v d. dist s v = Some (Fin d) \<longrightarrow>
            (\<exists>p. tree_path adj start s v p \<and> walk_cost avoid fac p = d)"
    unfolding opt_inv_def by (elim conjE)
  with assms(2) show ?thesis by blast
qed

lemma opt_inv_visited:
  assumes "opt_inv adj start goal avoid fac s" "u \<in> set (visited s)"
  shows "\<exists>d. dist s u = Some (Fin d) \<and> (\<forall>q. is_walk adj start q u \<longrightarrow> d \<le> walk_cost avoid fac q)"
proof -
  from assms(1) have "\<forall>u \<in> set (visited s). \<exists>d. dist s u = Some (Fin d)
            \<and> (\<forall>q. is_walk adj start q u \<longrightarrow> d \<le> walk_cost avoid fac q)"
    unfolding opt_inv_def by (elim conjE)
  with assms(2) show ?thesis by blast
qed

lemma opt_inv_relaxed:
  assumes "opt_inv adj start goal avoid fac s" "u \<in> set (visited s)"
    "map_of adj u = Some es" "e \<in> set es" "to_n e \<in> set (queue s)"
  shows "\<exists>du dv. dist s u = Some (Fin du) \<and> dist s (to_n e) = Some (Fin dv)
               \<and> dv \<le> du + cost avoid fac e"
proof -
  from assms(1) have "\<forall>u \<in> set (visited s). \<forall>es e.
            map_of adj u = Some es \<and> e \<in> set es \<and> to_n e \<in> set (queue s) \<longrightarrow>
            (\<exists>du dv. dist s u = Some (Fin du) \<and> dist s (to_n e) = Some (Fin dv)
               \<and> dv \<le> du + cost avoid fac e)"
    unfolding opt_inv_def by (elim conjE)
  with assms(2,3,4,5) show ?thesis by blast
qed

lemma opt_inv_initial:
  assumes "start \<in> fst ` set adj"
  shows "opt_inv adj start goal avoid fac (initial_state adj start)"
proof -
  have "tree_path adj start (initial_state adj start) start [] \<and> walk_cost avoid fac [] = 0"
    by (simp add: tree_path.root walk_cost_simps)
  then have "\<exists>p. tree_path adj start (initial_state adj start) start p \<and> walk_cost avoid fac p = 0"
    by blast
  then show ?thesis
    using assms by (simp add: opt_inv_def initial_state_simps)
qed

lemma extract_optimal:
  assumes inv: "opt_inv adj start goal avoid fac s"
    and nn: "nonneg_costs adj avoid fac"
    and pick: "pick (dist s) (queue s) = Some u"
    and walk: "is_walk adj start q u"
  shows "\<exists>du. dist s u = Some (Fin du) \<and> du \<le> walk_cost avoid fac q"
proof -
  from pick_Some [OF pick] obtain du where u: "u \<in> set (queue s)" "dist s u = Some (Fin du)"
    and least: "\<forall>m \<in> set (queue s). \<forall>dm. dist s m = Some dm \<longrightarrow> \<not> less_number dm (Fin du)"
    by blast
  have K: "set (queue s) \<union> set (visited s) = fst ` set adj"
    using inv by (rule opt_inv_keys)
  have disj: "set (queue s) \<inter> set (visited s) = {}"
    using inv by (rule opt_inv_disjoint)
  have uK: "u \<in> fst ` set adj" using u(1) K by blast
  show ?thesis
  proof (cases "start \<in> set (queue s)")
    case True
    from opt_inv_start_queued [OF inv True uK] u(2) have "u = start \<and> du = 0"
      by (auto split: if_splits)
    moreover have "0 \<le> walk_cost avoid fac q"
      using nn walk by (rule walk_cost_nonneg)
    ultimately show ?thesis using u(2) by simp
  next
    case False
    have "start \<in> fst ` set adj"
      using walk uK by (rule is_walk_source_key)
    with False K have sV: "start \<in> set (visited s)" by blast
    have uV: "u \<notin> set (visited s)" using u(1) disj by blast
    from walk_crossing [OF walk sV uV]
    obtain q1 e q2 x es where c: "q = q1 @ e # q2" "is_walk adj start q1 x" "x \<in> set (visited s)"
      "map_of adj x = Some es" "e \<in> set es" "to_n e \<notin> set (visited s)" "is_walk adj (to_n e) q2 u"
      by blast
    have "to_n e \<in> fst ` set adj"
      using c(7) uK by (rule is_walk_source_key)
    with c(6) K have yQ: "to_n e \<in> set (queue s)" by blast
    from opt_inv_relaxed [OF inv c(3,4,5) yQ] obtain dx dy where r: "dist s x = Some (Fin dx)"
      "dist s (to_n e) = Some (Fin dy)" "dy \<le> dx + cost avoid fac e"
      by blast
    from opt_inv_visited [OF inv c(3)] r(1) c(2) have "dx \<le> walk_cost avoid fac q1"
      by auto
    moreover have "\<not> less_number (Fin dy) (Fin du)"
      using least yQ r(2) by blast
    then have "du \<le> dy" by simp
    moreover have "0 \<le> walk_cost avoid fac q2"
      using nn c(7) by (rule walk_cost_nonneg)
    ultimately have "du \<le> walk_cost avoid fac q"
      using r(3) by (simp add: c(1) walk_cost_simps)
    with u(2) show ?thesis by simp
  qed
qed


text \<open>What the inner loop keeps while it relaxes the edges of the extracted node.\<close>

definition relax_inv :: "adjacency \<Rightarrow> string \<Rightarrow> bool \<Rightarrow> real \<Rightarrow> dstate \<Rightarrow> dstate \<Rightarrow> bool" where
  "relax_inv adj start avoid fac s1 t =
     (visited t = visited s1 \<and> queue t = queue s1
      \<and> (\<forall>x \<in> set (visited s1). dist t x = dist s1 x)
      \<and> prev t start = None
      \<and> (\<forall>v d. dist t v = Some (Fin d) \<longrightarrow>
            (\<exists>p. tree_path adj start t v p \<and> walk_cost avoid fac p = d)))"

lemma relax_inv_step:
  assumes inv: "relax_inv adj start avoid fac s1 t"
    and u: "u \<in> set (visited s1)" and st: "start \<in> set (visited s1)"
    and es: "map_of adj u = Some es" "e \<in> set es"
  shows "relax_inv adj start avoid fac s1 (relax_step avoid fac u t e)"
proof -
  have vis: "visited t = visited s1"
    using inv unfolding relax_inv_def by (elim conjE)
  have qu: "queue t = queue s1"
    using inv unfolding relax_inv_def by (elim conjE)
  have same: "\<forall>x \<in> set (visited s1). dist t x = dist s1 x"
    using inv unfolding relax_inv_def by (elim conjE)
  have ps: "prev t start = None"
    using inv unfolding relax_inv_def by (elim conjE)
  have tree: "\<forall>v d. dist t v = Some (Fin d) \<longrightarrow>
            (\<exists>p. tree_path adj start t v p \<and> walk_cost avoid fac p = d)"
    using inv unfolding relax_inv_def by (elim conjE)
  from relax_step_cases [of avoid fac u t e] show ?thesis
  proof
    assume "relax_step avoid fac u t e = t"
    with inv show ?thesis by simp
  next
    assume "\<exists>du dv. to_n e \<notin> set (visited t) \<and> dist t u = Some (Fin du) \<and> dist t (to_n e) = Some dv
        \<and> less_number (Fin (du + weight e * (if avoid \<and> unpaved e then fac else 1))) dv
        \<and> relax_step avoid fac u t e
            = t\<lparr>dist := (dist t)(to_n e \<mapsto> Fin (du + weight e * (if avoid \<and> unpaved e then fac else 1))),
                 prev := (prev t)(to_n e \<mapsto> u)\<rparr>"
    then obtain du where nv: "to_n e \<notin> set (visited t)" and du: "dist t u = Some (Fin du)"
      and eq: "relax_step avoid fac u t e
            = t\<lparr>dist := (dist t)(to_n e \<mapsto> Fin (du + cost avoid fac e)),
                 prev := (prev t)(to_n e \<mapsto> u)\<rparr>"
      unfolding cost_def by blast
    let ?t' = "t\<lparr>dist := (dist t)(to_n e \<mapsto> Fin (du + cost avoid fac e)),
                 prev := (prev t)(to_n e \<mapsto> u)\<rparr>"
    have ne_u: "u \<noteq> to_n e" and ne_s: "start \<noteq> to_n e"
      using nv u st vis by auto
    have keep: "tree_path adj start ?t' v p" if "tree_path adj start t v p" "v \<noteq> to_n e" for v p
      using that(1)
    proof (rule tree_path_mono)
      show "set (visited t) \<subseteq> set (visited ?t')" by simp
      show "\<forall>x \<in> set (visited t). prev ?t' x = prev t x" using nv by auto
      show "prev ?t' v = prev t v" using that(2) by simp
    qed
    have tree': "\<exists>p. tree_path adj start ?t' v p \<and> walk_cost avoid fac p = d"
      if d: "dist ?t' v = Some (Fin d)" for v d
    proof (cases "v = to_n e")
      case False
      with d have "dist t v = Some (Fin d)" by simp
      with tree obtain p where "tree_path adj start t v p" "walk_cost avoid fac p = d" by blast
      with keep [OF _ False] show ?thesis by blast
    next
      case True
      with d have dd: "d = du + cost avoid fac e" by simp
      from tree du obtain pu where pu: "tree_path adj start t u pu" "walk_cost avoid fac pu = du"
        by blast
      have "tree_path adj start ?t' u pu"
        using pu(1) ne_u by (rule keep)
      moreover have "u \<in> set (visited ?t')" using u vis by simp
      moreover have "prev ?t' (to_n e) = Some u" by simp
      ultimately have "tree_path adj start ?t' (to_n e) (pu @ [e])"
        using es by (rule tree_path.edge)
      moreover have "walk_cost avoid fac (pu @ [e]) = d"
        by (simp add: walk_cost_simps pu(2) dd)
      ultimately show ?thesis using True by blast
    qed
    have "visited ?t' = visited s1" "queue ?t' = queue s1" using vis qu by simp_all
    moreover have "\<forall>x \<in> set (visited s1). dist ?t' x = dist s1 x"
      using same nv vis by auto
    moreover have "prev ?t' start = None" using ps ne_s by simp
    moreover have "\<forall>v d. dist ?t' v = Some (Fin d) \<longrightarrow>
            (\<exists>p. tree_path adj start ?t' v p \<and> walk_cost avoid fac p = d)"
      using tree' by blast
    ultimately have "relax_inv adj start avoid fac s1 ?t'"
      unfolding relax_inv_def by (intro conjI)
    then show ?thesis unfolding eq .
  qed
qed

lemma relax_fold_dom: "(dist (foldl (relax_step avoid fac u) t es) v = None) = (dist t v = None)"
  by (induction es arbitrary: t) (simp_all add: relax_step_dom)


lemma opt_inv_step:
  assumes inv: "opt_inv adj start goal avoid fac s"
    and nn: "nonneg_costs adj avoid fac"
    and sk: "start \<in> fst ` set adj"
    and pick: "pick (dist s) (queue s) = Some u"
    and ng: "u \<noteq> goal"
    and es: "map_of adj u = Some es"
  shows "opt_inv adj start goal avoid fac (foldl (relax_step avoid fac u) (extract_min s u) es)"
proof -
  let ?s1 = "extract_min s u"
  let ?s' = "foldl (relax_step avoid fac u) ?s1 es"
  from pick_Some [OF pick] obtain du where uQ: "u \<in> set (queue s)" and du: "dist s u = Some (Fin du)"
    by blast
  have K: "set (queue s) \<union> set (visited s) = fst ` set adj"
    using inv by (rule opt_inv_keys)
  have disj: "set (queue s) \<inter> set (visited s) = {}"
    using inv by (rule opt_inv_disjoint)
  have uK: "u \<in> fst ` set adj" using uQ K by blast
  have V1: "set (visited ?s1) = insert u (set (visited s))"
    and Q1: "set (queue ?s1) = set (queue s) - {u}"
    and d1: "dist ?s1 = dist s" and p1: "prev ?s1 = prev s"
    by (simp_all add: extract_min_simps)
  have sV1: "start \<in> set (visited ?s1)"
  proof (cases "start \<in> set (queue s)")
    case True
    from opt_inv_start_queued [OF inv True uK] du have "u = start"
      by (auto split: if_splits)
    then show ?thesis by (simp add: extract_min_simps)
  next
    case False
    with sk K show ?thesis by (auto simp: V1)
  qed
  have uV1: "u \<in> set (visited ?s1)" by (simp add: V1)
  have r1: "relax_inv adj start avoid fac ?s1 ?s1"
  proof -
    have "\<exists>p. tree_path adj start ?s1 v p \<and> walk_cost avoid fac p = d"
      if "dist ?s1 v = Some (Fin d)" for v d
    proof -
      from that have "dist s v = Some (Fin d)" by (simp add: d1)
      from opt_inv_tree [OF inv this] obtain p where p: "tree_path adj start s v p"
        "walk_cost avoid fac p = d" by blast
      have "tree_path adj start ?s1 v p"
        using p(1) by (rule tree_path_mono) (auto simp: V1 p1)
      with p(2) show ?thesis by blast
    qed
    moreover have "prev ?s1 start = None"
      using opt_inv_prev_start [OF inv] by (simp add: p1)
    ultimately show ?thesis
      unfolding relax_inv_def by blast
  qed
  have r': "relax_inv adj start avoid fac ?s1 ?s'"
    using r1
  proof (rule relax_fold_rule)
    fix t e assume "relax_inv adj start avoid fac ?s1 t" "e \<in> set es"
    then show "relax_inv adj start avoid fac ?s1 (relax_step avoid fac u t e)"
      using uV1 sV1 es by (intro relax_inv_step)
  qed
  have vis': "visited ?s' = visited ?s1"
    using r' unfolding relax_inv_def by (elim conjE)
  have qu': "queue ?s' = queue ?s1"
    using r' unfolding relax_inv_def by (elim conjE)
  have same': "\<forall>x \<in> set (visited ?s1). dist ?s' x = dist ?s1 x"
    using r' unfolding relax_inv_def by (elim conjE)
  have ps': "prev ?s' start = None"
    using r' unfolding relax_inv_def by (elim conjE)
  have tree': "\<forall>v d. dist ?s' v = Some (Fin d) \<longrightarrow>
            (\<exists>p. tree_path adj start ?s' v p \<and> walk_cost avoid fac p = d)"
    using r' unfolding relax_inv_def by (elim conjE)
  have c1: "set (queue ?s') \<union> set (visited ?s') = fst ` set adj"
    unfolding vis' qu' V1 Q1 using K uQ by blast
  have c2: "set (queue ?s') \<inter> set (visited ?s') = {}"
    unfolding vis' qu' V1 Q1 using disj by blast
  have c3: "\<forall>v. (dist ?s' v = None) = (v \<notin> fst ` set adj)"
    using opt_inv_dom [OF inv] by (simp add: relax_fold_dom d1)
  have c4: "start \<in> set (queue ?s') \<longrightarrow>
            (\<forall>v \<in> fst ` set adj. dist ?s' v = (if v = start then Some (Fin 0) else Some Infinity))"
    using sV1 c2 unfolding vis' by blast
  have c6: "goal \<notin> set (visited ?s')"
    unfolding vis' V1 using opt_inv_goal [OF inv] ng by simp
  have c8: "\<forall>x \<in> set (visited ?s'). \<exists>d. dist ?s' x = Some (Fin d)
            \<and> (\<forall>q. is_walk adj start q x \<longrightarrow> d \<le> walk_cost avoid fac q)"
  proof
    fix x assume "x \<in> set (visited ?s')"
    then have x: "x \<in> set (visited ?s1)" by (simp add: vis')
    with same' have dx: "dist ?s' x = dist s x" by (simp add: d1)
    show "\<exists>d. dist ?s' x = Some (Fin d)
            \<and> (\<forall>q. is_walk adj start q x \<longrightarrow> d \<le> walk_cost avoid fac q)"
    proof (cases "x = u")
      case True
      have "\<forall>q. is_walk adj start q u \<longrightarrow> du \<le> walk_cost avoid fac q"
        using extract_optimal [OF inv nn pick] du by fastforce
      with du True show ?thesis unfolding dx by blast
    next
      case False
      with x have "x \<in> set (visited s)" by (simp add: V1)
      from opt_inv_visited [OF inv this] show ?thesis unfolding dx .
    qed
  qed
  have c9: "\<forall>x \<in> set (visited ?s'). \<forall>es' e.
            map_of adj x = Some es' \<and> e \<in> set es' \<and> to_n e \<in> set (queue ?s') \<longrightarrow>
            (\<exists>dx dv. dist ?s' x = Some (Fin dx) \<and> dist ?s' (to_n e) = Some (Fin dv)
               \<and> dv \<le> dx + cost avoid fac e)"
  proof (intro ballI allI impI)
    fix x es' e
    assume xv: "x \<in> set (visited ?s')"
      and e: "map_of adj x = Some es' \<and> e \<in> set es' \<and> to_n e \<in> set (queue ?s')"
    from xv have x: "x \<in> set (visited ?s1)" by (simp add: vis')
    with same' have dx: "dist ?s' x = dist s x" by (simp add: d1)
    from e have yQ: "to_n e \<in> set (queue s)" "to_n e \<noteq> u"
      by (simp_all add: qu' Q1)
    show "\<exists>dx dv. dist ?s' x = Some (Fin dx) \<and> dist ?s' (to_n e) = Some (Fin dv)
               \<and> dv \<le> dx + cost avoid fac e"
    proof (cases "x = u")
      case True
      with e es have ee: "e \<in> set es" by simp
      have "to_n e \<notin> set (visited ?s1)"
        using yQ disj by (auto simp: V1)
      moreover have "dist ?s1 (to_n e) \<noteq> None"
        using opt_inv_dom [OF inv, of "to_n e"] yQ(1) K by (auto simp: d1)
      moreover have "dist ?s1 u = Some (Fin du)" using du by (simp add: d1)
      ultimately obtain dv where "dist ?s' (to_n e) = Some (Fin dv)" "dv \<le> du + cost avoid fac e"
        using relax_fold_relaxed [OF uV1 _ ee, of du avoid fac] by blast
      with du True show ?thesis unfolding dx by blast
    next
      case False
      with x have xV: "x \<in> set (visited s)" by (simp add: V1)
      from e have "map_of adj x = Some es'" "e \<in> set es'" by simp_all
      from opt_inv_relaxed [OF inv xV this yQ(1)]
      obtain dx' dy where r: "dist s x = Some (Fin dx')" "dist s (to_n e) = Some (Fin dy)"
        "dy \<le> dx' + cost avoid fac e" by blast
      from r(2) have "dist ?s1 (to_n e) = Some (Fin dy)" by (simp add: d1)
      from relax_fold_decreasing [OF this, of avoid fac u es]
      obtain dy' where "dist ?s' (to_n e) = Some (Fin dy')" "dy' \<le> dy" by blast
      with r(1,3) show ?thesis unfolding dx by fastforce
    qed
  qed
  show ?thesis
    unfolding opt_inv_def using c1 c2 c3 c4 ps' c6 tree' c8 c9 by (intro conjI)
qed


text \<open>
  The effective cost of an edge as the specification words it, read off the options the
  caller passes and not off the variables of the function: the weight times the
  multiplier if the edge is unpaved and the caller asked to avoid unpaved roads, the
  weight otherwise; the multiplier is the caller's \<^verbatim>\<open>unpavedFactor\<close>, and 3 when the
  caller gives none.
\<close>

definition effective_cost :: "opts \<Rightarrow> adj_entry \<Rightarrow> real" where
  "effective_cost o' e =
     (if unpaved e \<and> avoidUnpaved o' = Some True
      then weight e * (case unpavedFactor o' of Some f \<Rightarrow> f | None \<Rightarrow> 3)
      else weight e)"

definition path_cost :: "opts \<Rightarrow> adj_entry list \<Rightarrow> real" where
  "path_cost o' p = (\<Sum>e\<leftarrow>p. effective_cost o' e)"

lemma effective_cost_eq:
  "effective_cost o' e = cost (avoidUnpaved_or_default o') (unpavedFactor_or_default o') e"
  by (simp add: cost_def effective_cost_def avoidUnpaved_or_default_def
      unpavedFactor_or_default_def split: option.splits)

lemma path_cost_eq:
  "path_cost o' p = walk_cost (avoidUnpaved_or_default o') (unpavedFactor_or_default o') p"
  by (induction p) (simp_all add: path_cost_def walk_cost_def effective_cost_eq)

lemma is_walk_last: "is_walk adj u p v \<Longrightarrow> last (u # map to_n p) = v"
  by (induction p arbitrary: u) (auto split: option.splits)

lemma opt_inv_reaches_goal:
  assumes inv: "opt_inv adj start goal avoid fac s"
    and gk: "goal \<in> fst ` set adj"
    and walk: "is_walk adj start w goal"
  shows "queue s \<noteq> [] \<and> pick (dist s) (queue s) \<noteq> None"
proof -
  have K: "set (queue s) \<union> set (visited s) = fst ` set adj"
    using inv by (rule opt_inv_keys)
  have gV: "goal \<notin> set (visited s)"
    using inv by (rule opt_inv_goal)
  with K gk have gQ: "goal \<in> set (queue s)" by blast
  then have ne: "queue s \<noteq> []" by auto
  have sk: "start \<in> fst ` set adj"
    using walk gk by (rule is_walk_source_key)
  have "\<exists>y \<in> set (queue s). \<exists>d. dist s y = Some (Fin d)"
  proof (cases "start \<in> set (queue s)")
    case True
    from opt_inv_start_queued [OF inv True sk] have "dist s start = Some (Fin 0)" by simp
    with True show ?thesis by blast
  next
    case False
    with K sk have sV: "start \<in> set (visited s)" by blast
    from walk_crossing [OF walk sV gV]
    obtain q1 e q2 x es where c: "x \<in> set (visited s)"
      "map_of adj x = Some es" "e \<in> set es" "to_n e \<notin> set (visited s)" "is_walk adj (to_n e) q2 goal"
      by blast
    have "to_n e \<in> fst ` set adj"
      using c(5) gk by (rule is_walk_source_key)
    with c(4) K have yQ: "to_n e \<in> set (queue s)" by blast
    from opt_inv_relaxed [OF inv c(1,2,3) yQ] yQ show ?thesis by blast
  qed
  then obtain y d where y: "y \<in> set (queue s)" "dist s y = Some (Fin d)" by blast
  have "pick (dist s) (queue s) \<noteq> None"
  proof
    assume "pick (dist s) (queue s) = None"
    from pick_None [OF this y(1)] y(2) show False by simp
  qed
  with ne show ?thesis by simp
qed

text \<open>
  C1. Dijkstra optimality: for every adjacency whose lists carry non-negative weights,
  every unpaved multiplier that the caller passes being at least 1, and every start and
  goal that are keys of the adjacency with a walk from start to goal, dijkstra returns a
  result; its path begins at start, ends at goal and is the node sequence of a walk \<open>p\<close>
  along edges of the adjacency; its distance is the sum of the effective costs of \<open>p\<close>;
  and no walk from start to goal has a smaller sum. The effective cost of an edge is its
  weight times the caller's multiplier (3 if the caller passes none) when the edge is
  unpaved and the caller passes \<^verbatim>\<open>avoidUnpaved: true\<close>, and its weight otherwise.
\<close>

theorem dijkstra_optimal:
  assumes weights: "\<forall>(u, es) \<in> set adj. \<forall>e \<in> set es. 0 \<le> weight e"
    and factor: "\<forall>f. unpavedFactor o' = Some f \<longrightarrow> 1 \<le> f"
    and sk: "start \<in> fst ` set adj" and gk: "goal \<in> fst ` set adj"
    and reach: "is_walk adj start w goal"
  shows "\<exists>r p. dijkstra adj start goal o' = Some (Inr r)
     \<and> is_walk adj start p goal
     \<and> path r = start # map to_n p \<and> hd (path r) = start \<and> last (path r) = goal
     \<and> distance r = Some (Fin (\<Sum>e\<leftarrow>p.
          if unpaved e \<and> avoidUnpaved o' = Some True
          then weight e * (case unpavedFactor o' of Some f \<Rightarrow> f | None \<Rightarrow> 3)
          else weight e))
     \<and> distance r = Some (Fin (path_cost o' p))
     \<and> (\<forall>q. is_walk adj start q goal \<longrightarrow> path_cost o' p \<le> path_cost o' q)"
proof -
  define avoid where "avoid = avoidUnpaved_or_default o'"
  define fac where "fac = unpavedFactor_or_default o'"
  have nn: "nonneg_costs adj avoid fac"
    unfolding nonneg_costs_def
  proof (intro allI impI)
    fix u es e assume "map_of adj u = Some es \<and> e \<in> set es"
    then have "(u, es) \<in> set adj" "e \<in> set es"
      by (simp_all add: map_of_SomeD)
    with weights have "0 \<le> weight e" by blast
    moreover have "0 \<le> fac"
    proof (cases "unpavedFactor o'")
      case None
      then show ?thesis by (simp add: fac_def unpavedFactor_or_default_def)
    next
      case (Some f)
      with factor have "1 \<le> f" by blast
      with Some show ?thesis by (simp add: fac_def unpavedFactor_or_default_def)
    qed
    ultimately show "0 \<le> cost avoid fac e"
      by (simp add: cost_def)
  qed
  have init: "opt_inv adj start goal avoid fac (initial_state adj start)"
    using sk by (rule opt_inv_initial)
  have keys: "\<And>s. opt_inv adj start goal avoid fac s \<Longrightarrow> set (queue s) \<subseteq> fst ` set adj"
    using opt_inv_keys by blast
  have step: "\<And>s u es. opt_inv adj start goal avoid fac s \<Longrightarrow> queue s \<noteq> []
      \<Longrightarrow> pick (dist s) (queue s) = Some u \<Longrightarrow> u \<noteq> goal \<Longrightarrow> map_of adj u = Some es
      \<Longrightarrow> opt_inv adj start goal avoid fac (foldl (relax_step avoid fac u) (extract_min s u) es)"
    using nn sk by (intro opt_inv_step)
  from dijkstra_loop_rule [of "opt_inv adj start goal avoid fac", OF init keys step]
  obtain st s where run: "dijkstra_run adj start goal o' = Inr st"
    and inv: "opt_inv adj start goal avoid fac s"
    and fin: "st = s \<and> (queue s = [] \<or> pick (dist s) (queue s) = None)
              \<or> queue s \<noteq> [] \<and> pick (dist s) (queue s) = Some goal \<and> st = extract_min s goal"
    unfolding dijkstra_run_def avoid_def fac_def by blast
  from opt_inv_reaches_goal [OF inv gk reach] fin
  have pick: "pick (dist s) (queue s) = Some goal" and st: "st = extract_min s goal"
    by auto
  from pick_Some [OF pick] obtain d where d: "dist s goal = Some (Fin d)" by blast
  from opt_inv_tree [OF inv d] obtain p where p: "tree_path adj start s goal p"
    "walk_cost avoid fac p = d" by blast
  have walk: "is_walk adj start p goal"
    using p(1) by (rule tree_path_is_walk)
  have least: "\<forall>q. is_walk adj start q goal \<longrightarrow> path_cost o' p \<le> path_cost o' q"
  proof (intro allI impI)
    fix q assume "is_walk adj start q goal"
    from extract_optimal [OF inv nn pick this] d p(2)
    show "path_cost o' p \<le> path_cost o' q"
      by (simp add: path_cost_eq avoid_def fac_def)
  qed
  have wb: "walk_back (prev s) (Some goal) [] = Some (start # map to_n p)"
    using tree_path_walk_back [OF p(1) opt_inv_prev_start [OF inv], of "[]"] by simp
  have "prev s goal \<noteq> None \<or> goal = start"
    using tree_path_nonempty [OF p(1)] by blast
  then have rec: "reconstruct (prev st) start goal = Some (start # map to_n p)"
    using wb by (simp add: reconstruct_def st extract_min_simps)
  have res: "dijkstra adj start goal o'
      = Some (Inr \<lparr>distance = Some (Fin (path_cost o' p)), path = start # map to_n p,
                   visitedCount = length (visited st)\<rparr>)"
    using run rec d p(2)
    by (simp add: dijkstra_def st extract_min_simps path_cost_eq avoid_def fac_def)
  have sum: "\<And>p. (\<Sum>e\<leftarrow>p.
          if unpaved e \<and> avoidUnpaved o' = Some True
          then weight e * (case unpavedFactor o' of Some f \<Rightarrow> f | None \<Rightarrow> 3)
          else weight e) = path_cost o' p"
    by (simp add: path_cost_def effective_cost_def [abs_def])
  let ?r = "\<lparr>distance = Some (Fin (path_cost o' p)), path = start # map to_n p,
                   visitedCount = length (visited st)\<rparr>"
  have "is_walk adj start p goal
     \<and> path ?r = start # map to_n p \<and> hd (path ?r) = start \<and> last (path ?r) = goal
     \<and> distance ?r = Some (Fin (path_cost o' p))
     \<and> (\<forall>q. is_walk adj start q goal \<longrightarrow> path_cost o' p \<le> path_cost o' q)"
    using walk least is_walk_last [OF walk] by simp
  with res show ?thesis unfolding sum by blast
qed

theorem dijkstra_optimal_witness:
  "\<exists>p. is_walk
        [(''a'', [\<lparr>to_n = ''b'', weight = 100, unpaved = True, surface = ''gravel''\<rparr>,
                 \<lparr>to_n = ''c'', weight = 100, unpaved = False, surface = ''paved''\<rparr>]),
         (''b'', [\<lparr>to_n = ''a'', weight = 100, unpaved = True, surface = ''gravel''\<rparr>]),
         (''c'', [\<lparr>to_n = ''b'', weight = 150, unpaved = False, surface = ''paved''\<rparr>])]
        ''a'' p ''b''
      \<and> map to_n p = [''b'']
      \<and> path_cost \<lparr>avoidUnpaved = Some True, unpavedFactor = Some 2\<rparr> p = 200
      \<and> dijkstra
        [(''a'', [\<lparr>to_n = ''b'', weight = 100, unpaved = True, surface = ''gravel''\<rparr>,
                 \<lparr>to_n = ''c'', weight = 100, unpaved = False, surface = ''paved''\<rparr>]),
         (''b'', [\<lparr>to_n = ''a'', weight = 100, unpaved = True, surface = ''gravel''\<rparr>]),
         (''c'', [\<lparr>to_n = ''b'', weight = 150, unpaved = False, surface = ''paved''\<rparr>])]
        ''a'' ''b'' \<lparr>avoidUnpaved = Some True, unpavedFactor = Some 2\<rparr>
        = Some (Inr \<lparr>distance = Some (Fin 200), path = [''a'', ''b''], visitedCount = 3\<rparr>)
      \<and> path_cost \<lparr>avoidUnpaved = Some True, unpavedFactor = Some 2\<rparr>
          [\<lparr>to_n = ''c'', weight = 100, unpaved = False, surface = ''paved''\<rparr>,
           \<lparr>to_n = ''b'', weight = 150, unpaved = False, surface = ''paved''\<rparr>] = 250"
proof -
  let ?ab = "\<lparr>to_n = ''b'', weight = 100, unpaved = True, surface = ''gravel''\<rparr>"
  let ?ac = "\<lparr>to_n = ''c'', weight = 100, unpaved = False, surface = ''paved''\<rparr>"
  let ?ba = "\<lparr>to_n = ''a'', weight = 100, unpaved = True, surface = ''gravel''\<rparr>"
  let ?cb = "\<lparr>to_n = ''b'', weight = 150, unpaved = False, surface = ''paved''\<rparr>"
  let ?adj = "[(''a'', [?ab, ?ac]), (''b'', [?ba]), (''c'', [?cb])]"
  let ?o = "\<lparr>avoidUnpaved = Some True, unpavedFactor = Some 2\<rparr>"
  have weights: "\<forall>(u, es) \<in> set ?adj. \<forall>e \<in> set es. 0 \<le> weight e" by simp
  have factor: "\<forall>f. unpavedFactor ?o = Some f \<longrightarrow> 1 \<le> f" by simp
  have sk: "''a'' \<in> fst ` set ?adj" and gk: "''b'' \<in> fst ` set ?adj" by simp_all
  have reach: "is_walk ?adj ''a'' [?ac, ?cb] ''b''" by simp
  from dijkstra_optimal [OF weights factor sk gk reach]
  obtain r p where r: "dijkstra ?adj ''a'' ''b'' ?o = Some (Inr r)"
    and p: "is_walk ?adj ''a'' p ''b''" "path r = ''a'' # map to_n p"
      "distance r = Some (Fin (path_cost ?o p))"
    by blast
  have run: "dijkstra ?adj ''a'' ''b'' ?o
      = Some (Inr \<lparr>distance = Some (Fin 200), path = [''a'', ''b''], visitedCount = 3\<rparr>)"
    by (simp add: dijkstra_def dijkstra_run_def initial_state_def dijkstra_loop.simps
        pick_def pick_step_def relax_step_def new_Set_def set_add_def set_delete_def extract_min_def
        avoidUnpaved_or_default_def unpavedFactor_or_default_def reconstruct_def walk_back.simps
        Let_def)
  from r run have "r = \<lparr>distance = Some (Fin 200), path = [''a'', ''b''], visitedCount = 3\<rparr>"
    by simp
  with p(2,3) have m: "map to_n p = [''b'']" "path_cost ?o p = 200"
    by simp_all
  have other: "path_cost ?o [?ac, ?cb] = 250"
    by (simp add: path_cost_def effective_cost_def)
  show ?thesis
    by (intro exI [of _ p] conjI) (fact p(1) m run other)+
qed

section \<open>The standalone function (thefunction.js, dijkstra)\<close>

text \<open>
  The function of thefunction.js has the text of the one in app.js, except that
  \<^verbatim>\<open>dist\<close> and \<^verbatim>\<open>prev\<close> are created as \<^verbatim>\<open>{}\<close>: plain objects, whose prototype
  is \<^verbatim>\<open>Object.prototype\<close>. Reading a key that is not an own property then finds the
  inherited property of that name, if there is one: a function for \<^verbatim>\<open>constructor\<close>,
  \<^verbatim>\<open>toString\<close> and the like, the prototype object for \<^verbatim>\<open>__proto__\<close>. Writing a
  number or a string to \<^verbatim>\<open>__proto__\<close> calls the inherited setter, which ignores
  values that are not objects; writing to any other key creates an own property.
\<close>

datatype 'a lookup = Own 'a | Inherited string | Undefined

definition object_prototype_names :: "string list" where
  "object_prototype_names =
     [''constructor'', ''__defineGetter__'', ''__defineSetter__'', ''hasOwnProperty'',
      ''__lookupGetter__'', ''__lookupSetter__'', ''isPrototypeOf'', ''propertyIsEnumerable'',
      ''toString'', ''valueOf'', ''__proto__'', ''toLocaleString'']"

definition plain_get :: "(string \<rightharpoonup> 'a) \<Rightarrow> string \<Rightarrow> 'a lookup" where
  "plain_get m k =
     (case m k of
        Some v \<Rightarrow> Own v
      | None \<Rightarrow> if k \<in> set object_prototype_names then Inherited k else Undefined)"

definition plain_set :: "(string \<rightharpoonup> 'a) \<Rightarrow> string \<Rightarrow> 'a \<Rightarrow> (string \<rightharpoonup> 'a)" where
  "plain_set m k v = (if k = ''__proto__'' then m else m(k \<mapsto> v))"

text \<open>
  What the reconstruction puts into the path: a node id, or the inherited value it read
  from \<^verbatim>\<open>prev\<close>. Using such a value as a key converts it to a string:
  \<^verbatim>\<open>function toString() { [native code] }\<close> for a built-in function (the function
  stored under \<^verbatim>\<open>constructor\<close> is named \<^verbatim>\<open>Object\<close>) and
  \<^verbatim>\<open>[object Object]\<close> for the prototype object.
\<close>

datatype path_entry = Id string | Proto string

definition property_key :: "path_entry \<Rightarrow> string" where
  "property_key x =
     (case x of
        Id k \<Rightarrow> k
      | Proto n \<Rightarrow>
          if n = ''__proto__'' then ''[object Object]''
          else ''function '' @ (if n = ''constructor'' then ''Object'' else n) @ ''() { [native code] }'')"

text \<open>
  The scan, the relaxation, the loop and the reconstruction, with the reads and writes of
  a plain object. A comparison of a number with an inherited function or object is false
  (it converts to \<^verbatim>\<open>NaN\<close>), as one with \<^verbatim>\<open>undefined\<close> is. The relaxation is
  only run for the extracted node \<open>u\<close>, whose \<^verbatim>\<open>dist[u]\<close> is an own finite number (the
  scan returns no other node), so \<^verbatim>\<open>alt\<close> is a number.
\<close>

definition pick_step_plain ::
  "(string \<rightharpoonup> number) \<Rightarrow> string option \<times> number \<Rightarrow> string \<Rightarrow> string option \<times> number" where
  "pick_step_plain d acc n =
     (case plain_get d n of
        Own dn \<Rightarrow> if less_number dn (snd acc) then (Some n, dn) else acc
      | _ \<Rightarrow> acc)"

definition pick_plain :: "(string \<rightharpoonup> number) \<Rightarrow> string list \<Rightarrow> string option" where
  "pick_plain d q = fst (foldl (pick_step_plain d) (None, Infinity) q)"

definition relax_step_plain :: "bool \<Rightarrow> real \<Rightarrow> string \<Rightarrow> dstate \<Rightarrow> adj_entry \<Rightarrow> dstate" where
  "relax_step_plain avoid fac u st e =
     (let v = to_n e in
      if v \<in> set (visited st) then st
      else
        (let factor = (if avoid \<and> unpaved e then fac else 1) in
         case plain_get (dist st) u of
           Own (Fin du) \<Rightarrow>
             (let alt = du + weight e * factor in
              case plain_get (dist st) v of
                Own dv \<Rightarrow>
                  if less_number (Fin alt) dv
                  then st\<lparr>dist := plain_set (dist st) v (Fin alt), prev := plain_set (prev st) v u\<rparr>
                  else st
              | _ \<Rightarrow> st)
         | _ \<Rightarrow> st))"

lemma pick_step_plain_fold:
  "foldl (pick_step_plain d) (b, best) q = (b', best') \<Longrightarrow> b' = b \<or> (\<exists>n \<in> set q. b' = Some n)"
proof (induction q arbitrary: b best)
  case Nil
  then show ?case by simp
next
  case (Cons n q)
  obtain b1 best1 where s: "pick_step_plain d (b, best) n = (b1, best1)" by force
  then have "b1 = b \<or> b1 = Some n"
    by (auto simp: pick_step_plain_def split: lookup.splits if_splits)
  moreover from Cons.prems s have "b' = b1 \<or> (\<exists>n \<in> set q. b' = Some n)"
    using Cons.IH [of b1 best1] by simp
  ultimately show ?case by auto
qed

lemma pick_plain_in_queue: "pick_plain d q = Some u \<Longrightarrow> u \<in> set q"
proof -
  assume a: "pick_plain d q = Some u"
  obtain b' best' where f: "foldl (pick_step_plain d) (None, Infinity) q = (b', best')" by force
  with a have "b' = Some u" by (simp add: pick_plain_def)
  with pick_step_plain_fold [OF f] show ?thesis by auto
qed

lemma relax_step_plain_queue: "queue (relax_step_plain avoid fac u st e) = queue st"
  by (simp add: relax_step_plain_def Let_def split: lookup.splits number.splits)

lemma relax_fold_plain_queue: "queue (foldl (relax_step_plain avoid fac u) st es) = queue st"
  by (induction es arbitrary: st) (simp_all add: relax_step_plain_queue)

function dijkstra_loop_plain :: "adjacency \<Rightarrow> string \<Rightarrow> bool \<Rightarrow> real \<Rightarrow> dstate \<Rightarrow> error + dstate" where
  "dijkstra_loop_plain adj goal avoid fac st =
     (if queue st = [] then Inr st
      else
        (case pick_plain (dist st) (queue st) of
           None \<Rightarrow> Inr st
         | Some u \<Rightarrow>
             (let st1 = extract_min st u in
              if u = goal then Inr st1
              else
                (case map_of adj u of
                   None \<Rightarrow> Inl TypeError
                 | Some es \<Rightarrow>
                     dijkstra_loop_plain adj goal avoid fac (foldl (relax_step_plain avoid fac u) st1 es)))))"
  by pat_completeness auto
termination
proof (relation "measure (\<lambda>(adj, goal, avoid, fac, st). length (queue st))")
  show "wf (measure (\<lambda>(adj, goal, avoid, fac, st). length (queue st)))" by simp
next
  fix adj :: adjacency and goal :: string and avoid :: bool and fac :: real and st :: dstate
    and u st1 es
  assume "pick_plain (dist st) (queue st) = Some u" and "st1 = extract_min st u"
  then have "u \<in> set (queue st)" and "queue st1 = removeAll u (queue st)"
    by (auto simp: extract_min_def set_delete_def dest: pick_plain_in_queue)
  then have "length (queue st1) < length (queue st)"
    by (simp add: length_removeAll_less)
  then show "((adj, goal, avoid, fac, foldl (relax_step_plain avoid fac u) st1 es),
               (adj, goal, avoid, fac, st))
              \<in> measure (\<lambda>(adj, goal, avoid, fac, st). length (queue st))"
    by (simp add: relax_fold_plain_queue)
qed

declare dijkstra_loop_plain.simps [simp del]

definition next_entry :: "(string \<rightharpoonup> string) \<Rightarrow> path_entry \<Rightarrow> path_entry option" where
  "next_entry p x =
     (case plain_get p (property_key x) of
        Own v \<Rightarrow> Some (Id v)
      | Inherited n \<Rightarrow> Some (Proto n)
      | Undefined \<Rightarrow> None)"

partial_function (option) walk_back_plain ::
  "(string \<rightharpoonup> string) \<Rightarrow> path_entry option \<Rightarrow> path_entry list \<Rightarrow> path_entry list option" where
  "walk_back_plain p u pth =
     (case u of None \<Rightarrow> Some pth | Some x \<Rightarrow> walk_back_plain p (next_entry p x) (x # pth))"

definition reconstruct_plain ::
  "(string \<rightharpoonup> string) \<Rightarrow> string \<Rightarrow> string \<Rightarrow> path_entry list option" where
  "reconstruct_plain p start goal =
     (if plain_get p goal \<noteq> Undefined \<or> goal = start then walk_back_plain p (Some (Id goal)) []
      else Some [])"

record plain_result =
  distance_p :: "number lookup"
  path_p :: "path_entry list"
  visitedCount_p :: nat

definition initial_state_plain :: "adjacency \<Rightarrow> string \<Rightarrow> dstate" where
  "initial_state_plain adj start =
     (let ns = map fst adj in
      \<lparr>dist = plain_set (foldl (\<lambda>d n. plain_set d n Infinity) Map.empty ns) start (Fin 0),
       prev = Map.empty, visited = [], queue = new_Set ns\<rparr>)"

definition dijkstra_thefunction ::
  "adjacency \<Rightarrow> string \<Rightarrow> string \<Rightarrow> opts \<Rightarrow> (error + plain_result) option" where
  "dijkstra_thefunction adj start goal o' =
     (case dijkstra_loop_plain adj goal (avoidUnpaved_or_default o') (unpavedFactor_or_default o')
             (initial_state_plain adj start) of
        Inl err \<Rightarrow> Some (Inl err)
      | Inr st \<Rightarrow>
          (case reconstruct_plain (prev st) start goal of
             None \<Rightarrow> None
           | Some p \<Rightarrow>
               Some (Inr \<lparr>distance_p = plain_get (dist st) goal, path_p = p,
                          visitedCount_p = length (visited st)\<rparr>)))"

text \<open>The result of the function of app.js, read in the result type of this one.\<close>

definition as_plain_result :: "path_result \<Rightarrow> plain_result" where
  "as_plain_result r =
     \<lparr>distance_p = (case distance r of None \<Rightarrow> Undefined | Some d \<Rightarrow> Own d),
      path_p = map Id (path r), visitedCount_p = visitedCount r\<rparr>"

text \<open>
  C10 states that the function of thefunction.js and the one of app.js return identical
  results for every adjacency, start, goal and options. On the adjacency with the two
  nodes \<open>a\<close> and \<open>constructor\<close> and no edges, from \<open>a\<close> to \<open>constructor\<close>, they do
  not: the goal is unreachable and the function of app.js returns the empty path, while the
  one of thefunction.js reads the inherited \<^verbatim>\<open>prev.constructor\<close>, takes the goal for
  reached, and returns a path of two entries, the first of which is that inherited
  function.
\<close>

theorem dijkstra_thefunction_prototype:
  "dijkstra_thefunction [(''a'', []), (''constructor'', [])] ''a'' ''constructor''
       \<lparr>avoidUnpaved = None, unpavedFactor = None\<rparr>
     = Some (Inr \<lparr>distance_p = Own Infinity, path_p = [Proto ''constructor'', Id ''constructor''],
                  visitedCount_p = 1\<rparr>)
   \<and> dijkstra [(''a'', []), (''constructor'', [])] ''a'' ''constructor''
       \<lparr>avoidUnpaved = None, unpavedFactor = None\<rparr>
     = Some (Inr \<lparr>distance = Some Infinity, path = [], visitedCount = 1\<rparr>)"
  by (simp add: dijkstra_thefunction_def initial_state_plain_def dijkstra_loop_plain.simps
      pick_plain_def pick_step_plain_def relax_step_plain_def plain_get_def plain_set_def
      object_prototype_names_def property_key_def next_entry_def reconstruct_plain_def
      walk_back_plain.simps
      dijkstra_def dijkstra_run_def initial_state_def dijkstra_loop.simps
      pick_def pick_step_def relax_step_def new_Set_def set_add_def set_delete_def extract_min_def
      avoidUnpaved_or_default_def unpavedFactor_or_default_def reconstruct_def Let_def)


subsection \<open>Where the two functions agree\<close>

text \<open>
  The prototype is the only difference: when neither start, goal nor any key of the
  adjacency is the name of a property of \<^verbatim>\<open>Object.prototype\<close>, both functions return
  the same result (\<open>dijkstra_thefunction_agrees\<close> below).
\<close>

lemma pick_step_plain_eq: "pick_step_plain d acc n = pick_step d acc n"
  by (simp add: pick_step_plain_def pick_step_def plain_get_def split: option.splits)

lemma pick_plain_eq: "pick_plain d q = pick d q"
proof -
  have "pick_step_plain d = pick_step d"
    by (intro ext) (rule pick_step_plain_eq)
  then show ?thesis by (simp add: pick_plain_def pick_def)
qed

lemma relax_step_plain_eq:
  assumes "dist st ''__proto__'' = None"
  shows "relax_step_plain avoid fac u st e = relax_step avoid fac u st e"
proof (cases "dist st (to_n e)")
  case None
  then show ?thesis
    by (simp add: relax_step_plain_def relax_step_def plain_get_def Let_def
        split: option.splits number.splits)
next
  case (Some dv)
  with assms have "to_n e \<noteq> ''__proto__''" by auto
  with Some show ?thesis
    by (simp add: relax_step_plain_def relax_step_def plain_get_def plain_set_def Let_def
        split: option.splits number.splits)
qed

lemma relax_fold_plain_eq:
  assumes "dist st ''__proto__'' = None"
  shows "foldl (relax_step_plain avoid fac u) st es = foldl (relax_step avoid fac u) st es"
  using assms
proof (induction es arbitrary: st)
  case Nil
  then show ?case by simp
next
  case (Cons e es)
  have "dist (relax_step avoid fac u st e) ''__proto__'' = None"
    using Cons.prems by (simp add: relax_step_dom)
  from Cons.IH [OF this] show ?case
    by (simp add: relax_step_plain_eq [OF Cons.prems])
qed

lemma dijkstra_loop_plain_eq:
  assumes "dist st ''__proto__'' = None"
  shows "dijkstra_loop_plain adj goal avoid fac st = dijkstra_loop adj goal avoid fac st"
  using assms
proof (induction adj goal avoid fac st rule: dijkstra_loop.induct)
  case (1 adj goal avoid fac st)
  show ?case
  proof (cases "queue st = []")
    case True
    then show ?thesis
      by (subst dijkstra_loop_plain.simps, subst dijkstra_loop.simps) simp
  next
    case ne: False
    show ?thesis
    proof (cases "pick (dist st) (queue st)")
      case None
      with ne show ?thesis
        by (subst dijkstra_loop_plain.simps, subst dijkstra_loop.simps) (simp add: pick_plain_eq)
    next
      case (Some u)
      show ?thesis
      proof (cases "u = goal")
        case True
        with ne Some show ?thesis
          by (subst dijkstra_loop_plain.simps, subst dijkstra_loop.simps)
            (simp add: pick_plain_eq Let_def)
      next
        case ng: False
        show ?thesis
        proof (cases "map_of adj u")
          case None
          with ne Some ng show ?thesis
            by (subst dijkstra_loop_plain.simps, subst dijkstra_loop.simps)
              (simp add: pick_plain_eq Let_def)
        next
          case es: (Some es)
          have d1: "dist (extract_min st u) ''__proto__'' = None"
            using "1.prems" by (simp add: extract_min_simps)
          then have "dist (foldl (relax_step avoid fac u) (extract_min st u) es) ''__proto__'' = None"
            by (simp add: relax_fold_dom)
          from "1.IH" [OF ne Some refl ng es this]
          have "dijkstra_loop_plain adj goal avoid fac (foldl (relax_step avoid fac u) (extract_min st u) es)
              = dijkstra_loop adj goal avoid fac (foldl (relax_step avoid fac u) (extract_min st u) es)" .
          moreover have "dijkstra_loop adj goal avoid fac st
            = dijkstra_loop adj goal avoid fac (foldl (relax_step avoid fac u) (extract_min st u) es)"
            using ne Some ng es by (subst dijkstra_loop.simps) (simp add: Let_def)
          moreover have "dijkstra_loop_plain adj goal avoid fac st
            = dijkstra_loop_plain adj goal avoid fac
                (foldl (relax_step_plain avoid fac u) (extract_min st u) es)"
            using ne Some ng es
            by (subst dijkstra_loop_plain.simps) (simp add: Let_def pick_plain_eq)
          ultimately show ?thesis
            by (simp add: relax_fold_plain_eq [OF d1])
        qed
      qed
    qed
  qed
qed

lemma initial_state_plain_eq:
  assumes "''__proto__'' \<notin> insert start (fst ` set adj)"
  shows "initial_state_plain adj start = initial_state adj start"
proof -
  have "foldl (\<lambda>d n. plain_set d n Infinity) d0 ns = foldl (\<lambda>d n. d(n \<mapsto> Infinity)) d0 ns"
    if "''__proto__'' \<notin> set ns" for ns and d0 :: "string \<rightharpoonup> number"
    using that by (induction ns arbitrary: d0) (auto simp: plain_set_def)
  from this [of "map fst adj" Map.empty] assms
  have f: "foldl (\<lambda>d n. plain_set d n Infinity) Map.empty (map fst adj)
      = foldl (\<lambda>d n. d(n \<mapsto> Infinity)) Map.empty (map fst adj)"
    by simp
  have "start \<noteq> ''__proto__''" using assms by auto
  then have "plain_set m start (Fin 0) = m(start \<mapsto> Fin 0)" for m :: "string \<rightharpoonup> number"
    by (simp add: plain_set_def)
  then show ?thesis
    by (simp add: initial_state_plain_def initial_state_def Let_def f)
qed


definition proto_free :: "string \<Rightarrow> bool" where
  "proto_free k = (k \<notin> set object_prototype_names)"

definition safe_links :: "(string \<rightharpoonup> string) \<Rightarrow> bool" where
  "safe_links p = (\<forall>k v. p k = Some v \<longrightarrow> proto_free v)"

lemma next_entry_Id:
  "proto_free k \<Longrightarrow> next_entry p (Id k) = map_option Id (p k)"
  by (simp add: next_entry_def plain_get_def property_key_def proto_free_def split: option.splits)

lemma walk_back_to_plain:
  assumes "walk_back p u acc = Some r"
  shows "safe_links p \<longrightarrow> (\<forall>v. u = Some v \<longrightarrow> proto_free v)
     \<longrightarrow> walk_back_plain p (map_option Id u) (map Id acc) = Some (map Id r)"
  using assms
proof (induction rule: walk_back.raw_induct)
  case (1 wb p u acc r)
  show ?case
  proof (intro impI)
    assume safe: "safe_links p" and pf: "\<forall>v. u = Some v \<longrightarrow> proto_free v"
    show "walk_back_plain p (map_option Id u) (map Id acc) = Some (map Id r)"
    proof (cases u)
      case None
      with "1.hyps" show ?thesis
        by (subst walk_back_plain.simps) simp
    next
      case (Some v)
      with "1.hyps" have w: "wb p (p v) (v # acc) = Some r" by simp
      have w2: "walk_back p (p v) (v # acc) = Some r"
        using "1.prems" Some by (subst (asm) walk_back.simps) simp
      have "\<forall>x. p v = Some x \<longrightarrow> proto_free x"
        using safe unfolding safe_links_def by blast
      with "1.IH" [OF w w2] safe
      have "walk_back_plain p (map_option Id (p v)) (map Id (v # acc)) = Some (map Id r)"
        by blast
      moreover have "next_entry p (Id v) = map_option Id (p v)"
        using pf Some by (simp add: next_entry_Id)
      ultimately show ?thesis
        using Some by (subst walk_back_plain.simps) simp
    qed
  qed
qed (rule assms)

lemma walk_back_from_plain:
  assumes "walk_back_plain p u' acc' = Some r'"
  shows "\<forall>u acc. u' = map_option Id u \<and> acc' = map Id acc \<and> safe_links p
           \<and> (\<forall>v. u = Some v \<longrightarrow> proto_free v)
     \<longrightarrow> (\<exists>r. walk_back p u acc = Some r \<and> r' = map Id r)"
  using assms
proof (induction rule: walk_back_plain.raw_induct)
  case (1 wb p u' acc' r')
  show ?case
  proof (intro allI impI)
    fix u acc
    assume a: "u' = map_option Id u \<and> acc' = map Id acc \<and> safe_links p
           \<and> (\<forall>v. u = Some v \<longrightarrow> proto_free v)"
    show "\<exists>r. walk_back p u acc = Some r \<and> r' = map Id r"
    proof (cases u)
      case None
      with a "1.hyps" have "r' = map Id acc" by simp
      with None show ?thesis
        by (subst walk_back.simps) simp
    next
      case (Some v)
      with a have pf: "proto_free v" by simp
      then have ne: "next_entry p (Id v) = map_option Id (p v)"
        by (rule next_entry_Id)
      from a Some "1.hyps" have w: "wb p (map_option Id (p v)) (map Id (v # acc)) = Some r'"
        by (simp add: ne)
      have w2: "walk_back_plain p (map_option Id (p v)) (map Id (v # acc)) = Some r'"
        using "1.prems" a Some by (subst (asm) walk_back_plain.simps) (simp add: ne)
      have "\<forall>x. p v = Some x \<longrightarrow> proto_free x"
        using a unfolding safe_links_def by blast
      with "1.IH" [OF w w2] a
      obtain r where "walk_back p (p v) (v # acc) = Some r" "r' = map Id r"
        by blast
      with Some show ?thesis
        by (subst walk_back.simps) simp
    qed
  qed
qed (rule assms)

lemma walk_back_plain_eq:
  assumes "safe_links p" "proto_free v"
  shows "walk_back_plain p (Some (Id v)) [] = map_option (map Id) (walk_back p (Some v) [])"
proof (cases "walk_back p (Some v) []")
  case (Some r)
  from walk_back_to_plain [OF this] assms show ?thesis
    by (simp add: Some)
next
  case None
  have "walk_back_plain p (Some (Id v)) [] = None"
  proof (cases "walk_back_plain p (Some (Id v)) []")
    case None
    then show ?thesis .
  next
    case (Some r')
    from walk_back_from_plain [OF this] assms
    have "\<exists>r. walk_back p (Some v) [] = Some r \<and> r' = map Id r"
      by (elim allE [of _ "Some v"] allE [of _ "[]"]) simp
    with None show ?thesis by simp
  qed
  with None show ?thesis by simp
qed


lemma dijkstra_run_links:
  "\<exists>st. dijkstra_run adj start goal o' = Inr st
     \<and> (\<forall>k v. prev st k = Some v \<longrightarrow> v \<in> fst ` set adj)"
proof -
  define I where "I s = (set (queue s) \<subseteq> fst ` set adj
      \<and> (\<forall>k v. prev s k = Some v \<longrightarrow> v \<in> fst ` set adj))" for s :: dstate
  have init: "I (initial_state adj start)"
    by (simp add: I_def initial_state_simps)
  have keys: "\<And>s. I s \<Longrightarrow> set (queue s) \<subseteq> fst ` set adj"
    by (simp add: I_def)
  have step: "I (foldl (relax_step avoid fac u) (extract_min s u) es)"
    if "I s" "pick (dist s) (queue s) = Some u" for s u es avoid fac
  proof (rule relax_fold_rule)
    show "I (extract_min s u)"
      using that(1) by (auto simp: I_def extract_min_simps)
  next
    have uK: "u \<in> fst ` set adj"
      using that pick_in_queue [of "dist s" "queue s" u] by (auto simp: I_def)
    fix s' e assume inv: "I s'"
    from relax_step_cases [of avoid fac u s' e]
    consider "relax_step avoid fac u s' e = s'"
      | d where "relax_step avoid fac u s' e
                   = s'\<lparr>dist := (dist s')(to_n e \<mapsto> d), prev := (prev s')(to_n e \<mapsto> u)\<rparr>"
      by blast
    then show "I (relax_step avoid fac u s' e)"
    proof cases
      case 1
      with inv show ?thesis by simp
    next
      case 2
      show ?thesis
        unfolding 2 using inv by (simp add: I_def uK)
    qed
  qed
  from dijkstra_loop_rule [of I, OF init keys step]
  obtain st' s where r: "dijkstra_run adj start goal o' = Inr st'" "I s"
    "st' = s \<or> st' = extract_min s goal"
    unfolding dijkstra_run_def by blast
  then have "\<forall>k v. prev st' k = Some v \<longrightarrow> v \<in> fst ` set adj"
    by (auto simp: I_def extract_min_simps)
  with r(1) show ?thesis by blast
qed

lemma proto_not_free: "\<not> proto_free ''__proto__''"
  by (simp add: proto_free_def object_prototype_names_def)

lemma dijkstra_thefunction_agrees:
  assumes "\<forall>k \<in> insert start (insert goal (fst ` set adj)). proto_free k"
  shows "dijkstra_thefunction adj start goal o'
     = map_option (map_sum (\<lambda>err. err) as_plain_result) (dijkstra adj start goal o')"
proof -
  have np: "''__proto__'' \<notin> insert start (fst ` set adj)"
    using assms proto_not_free by blast
  have ini: "initial_state_plain adj start = initial_state adj start"
    using np by (rule initial_state_plain_eq)
  have "dist (initial_state adj start) ''__proto__'' = None"
    using np by (auto simp: initial_state_simps)
  then have loop: "dijkstra_loop_plain adj goal (avoidUnpaved_or_default o')
        (unpavedFactor_or_default o') (initial_state_plain adj start)
      = dijkstra_run adj start goal o'"
    unfolding ini dijkstra_run_def by (rule dijkstra_loop_plain_eq)
  from dijkstra_run_links [of adj start goal o']
  obtain st where st: "dijkstra_run adj start goal o' = Inr st"
    and links: "\<forall>k v. prev st k = Some v \<longrightarrow> v \<in> fst ` set adj"
    by blast
  have safe: "safe_links (prev st)"
    unfolding safe_links_def using links assms by blast
  have gf: "proto_free goal" using assms by simp
  have und: "(plain_get (prev st) goal \<noteq> Undefined) = (prev st goal \<noteq> None)"
    using gf by (simp add: plain_get_def proto_free_def split: option.splits)
  have rec: "reconstruct_plain (prev st) start goal
      = map_option (map Id) (reconstruct (prev st) start goal)"
    by (simp add: reconstruct_plain_def reconstruct_def und walk_back_plain_eq [OF safe gf])
  have dis: "plain_get (dist st) goal = (case dist st goal of None \<Rightarrow> Undefined | Some d \<Rightarrow> Own d)"
    using gf by (simp add: plain_get_def proto_free_def split: option.splits)
  show ?thesis
    by (cases "reconstruct (prev st) start goal")
      (simp_all add: dijkstra_thefunction_def dijkstra_def loop st rec dis as_plain_result_def)
qed

end
